theory Spec2Isabelle
  imports Complex_Main "HOL-Library.Sublist" "HOL-Library.Code_Target_Nat"
begin

section \<open>Python strings\<close>

text \<open>
  A Python \<open>str\<close> is a sequence of Unicode code points. A code point is a natural
  number and a string is a list of them; \<open>str\<close> and \<open>cp\<close> write ASCII literals.
\<close>

type_synonym codepoint = nat
type_synonym pystr = "codepoint list"

definition cp :: "char \<Rightarrow> codepoint" where
  "cp c = of_char c"

definition str :: "string \<Rightarrow> pystr" where
  "str s = map cp s"

definition is_ascii :: "codepoint \<Rightarrow> bool" where
  "is_ascii c \<longleftrightarrow> c < 128"

definition ascii_digit :: "codepoint \<Rightarrow> bool" where
  "ascii_digit c \<longleftrightarrow> 48 \<le> c \<and> c \<le> 57"

definition ascii_lower :: "codepoint \<Rightarrow> codepoint" where
  "ascii_lower c = (if 65 \<le> c \<and> c \<le> 90 then c + 32 else c)"

text \<open>
  The parts of the Python runtime that are tables of the Unicode database or of the C
  library are parameters of the model: \<open>unicodedata.normalize("NFKD", _)\<close>,
  \<open>str.lower\<close>, the value of a decimal digit (the characters that the regular
  expression \<open>\d\<close> matches and that \<open>int\<close> reads), and the rendering of
  \<open>%Y\<close> by \<open>strftime\<close> (the C library pads years below 1000 on some
  platforms only).
\<close>

record pylib =
  py_nfkd :: "pystr \<Rightarrow> pystr"
  py_lower :: "pystr \<Rightarrow> pystr"
  py_decimal :: "codepoint \<Rightarrow> nat option"
  py_fmt_year :: "nat \<Rightarrow> pystr"

text \<open>\<open>str.isspace\<close> for one character: the white space of \<open>strip()\<close> and \<open>split()\<close>.\<close>

definition isspace :: "codepoint \<Rightarrow> bool" where
  "isspace c \<longleftrightarrow>
     (9 \<le> c \<and> c \<le> 13) \<or> (28 \<le> c \<and> c \<le> 32) \<or> c = 133 \<or> c = 160 \<or> c = 5760 \<or>
     (8192 \<le> c \<and> c \<le> 8202) \<or> c = 8232 \<or> c = 8233 \<or> c = 8239 \<or> c = 8287 \<or> c = 12288"

definition lstrip :: "pystr \<Rightarrow> pystr" where
  "lstrip s = dropWhile isspace s"

definition rstrip :: "pystr \<Rightarrow> pystr" where
  "rstrip s = rev (dropWhile isspace (rev s))"

definition strip :: "pystr \<Rightarrow> pystr" where
  "strip s = rstrip (lstrip s)"

text \<open>\<open>s.rstrip(ch)\<close> for a one-character argument.\<close>

definition rstrip_char :: "codepoint \<Rightarrow> pystr \<Rightarrow> pystr" where
  "rstrip_char ch s = rev (dropWhile (\<lambda>c. c = ch) (rev s))"

text \<open>\<open>s.startswith(p)\<close> and \<open>p in s\<close>.\<close>

definition startswith :: "pystr \<Rightarrow> pystr \<Rightarrow> bool" where
  "startswith s p \<longleftrightarrow> take (length p) s = p"

fun contains :: "pystr \<Rightarrow> pystr \<Rightarrow> bool" where
  "contains [] p = (p = [])"
| "contains (c # cs) p = (startswith (c # cs) p \<or> contains cs p)"

text \<open>\<open>s.split(sep)\<close> for a one-character separator: never the empty list.\<close>

fun split_on :: "codepoint \<Rightarrow> pystr \<Rightarrow> pystr list" where
  "split_on sep [] = [[]]"
| "split_on sep (c # cs) =
     (let ps = split_on sep cs in if c = sep then [] # ps else (c # hd ps) # tl ps)"

text \<open>\<open>s.split()\<close>: the maximal runs of characters that are not white space; \<open>cur\<close>
  is the run being read.\<close>

fun split_ws :: "pystr \<Rightarrow> pystr \<Rightarrow> pystr list" where
  "split_ws cur [] = (if cur = [] then [] else [cur])"
| "split_ws cur (c # cs) =
     (if isspace c then (if cur = [] then split_ws [] cs else cur # split_ws [] cs)
      else split_ws (cur @ [c]) cs)"

fun join :: "pystr \<Rightarrow> pystr list \<Rightarrow> pystr" where
  "join sep [] = []"
| "join sep [x] = x"
| "join sep (x # y # ys) = x @ sep @ join sep (y # ys)"

text \<open>\<open>s.replace(old, new)\<close> for a one-character \<open>old\<close>.\<close>

definition replace_char :: "codepoint \<Rightarrow> pystr \<Rightarrow> pystr \<Rightarrow> pystr" where
  "replace_char old new s = concat (map (\<lambda>c. if c = old then new else [c]) s)"

fun dec_digits :: "nat \<Rightarrow> pystr" where
  "dec_digits n = (if n < 10 then [48 + n] else dec_digits (n div 10) @ [48 + n mod 10])"

declare dec_digits.simps [simp del]

definition two_digits :: "nat \<Rightarrow> pystr" where
  "two_digits n = [48 + n div 10 mod 10, 48 + n mod 10]"

fun digits_value :: "nat \<Rightarrow> pystr \<Rightarrow> nat" where
  "digits_value acc [] = acc"
| "digits_value acc (c # cs) = digits_value (10 * acc + (c - 48)) cs"


section \<open>normalize\_to\_ascii\<close>

text \<open>The dictionary \<open>replacements\<close>, in its insertion order: the umlauts and sharp s.\<close>

definition replacements :: "(codepoint \<times> pystr) list" where
  "replacements =
     [(196, str ''Ae''), (214, str ''Oe''), (220, str ''Ue''),
      (228, str ''ae''), (246, str ''oe''), (252, str ''ue''), (223, str ''ss'')]"

definition apply_replacements :: "pystr \<Rightarrow> pystr" where
  "apply_replacements text = fold (\<lambda>(src, dst) t. replace_char src dst t) replacements text"

text \<open>\<open>text.encode("ascii", "ignore").decode("ascii")\<close>\<close>

definition encode_ascii_ignore :: "pystr \<Rightarrow> pystr" where
  "encode_ascii_ignore text = filter is_ascii text"

definition normalize_to_ascii :: "pylib \<Rightarrow> pystr \<Rightarrow> pystr" where
  "normalize_to_ascii L text =
     (if text = [] then []
      else let text = apply_replacements text;
               text = py_nfkd L text;
               text = encode_ascii_ignore text
           in join (str '' '') (split_ws [] text))"


section \<open>extract\_account\_name and find\_data\_start\_index\<close>

fun extract_account_name_loop :: "pylib \<Rightarrow> pystr list \<Rightarrow> pystr \<Rightarrow> pystr" where
  "extract_account_name_loop L [] default_account = default_account"
| "extract_account_name_loop L (line # rest) default_account =
     (let parts = split_on (cp CHR '';'') line in
      if 2 \<le> length parts \<and> startswith (py_lower L (strip (parts ! 0))) (str ''kontoname'')
      then (let name = rstrip_char (cp CHR '','') (strip (parts ! 1))
            in if name \<noteq> [] then name else default_account)
      else extract_account_name_loop L rest default_account)"

definition extract_account_name :: "pylib \<Rightarrow> pystr list \<Rightarrow> pystr \<Rightarrow> pystr" where
  "extract_account_name L lines default_account =
     extract_account_name_loop L (take 20 lines) default_account"

text \<open>The test of the scan for the header row of the table, on one line.\<close>

definition is_table_header :: "pystr \<Rightarrow> bool" where
  "is_table_header line \<longleftrightarrow>
     (let header = strip line
      in startswith header (str ''Buchung;'') \<and> contains header (str '';Betrag''))"

fun find_data_start_index_from :: "nat \<Rightarrow> pystr list \<Rightarrow> int" where
  "find_data_start_index_from idx [] = - 1"
| "find_data_start_index_from idx (line # rest) =
     (if is_table_header line then int idx + 1
      else find_data_start_index_from (Suc idx) rest)"

definition find_data_start_index :: "pystr list \<Rightarrow> int" where
  "find_data_start_index lines = find_data_start_index_from 0 lines"


section \<open>Floats: \<open>float()\<close> and the format \<open>.2f\<close>\<close>

text \<open>
  A Python float is an IEEE 754 double. \<open>Finite neg m e\<close> is the double of value
  \<open>(-1)^neg * m * 2^e\<close>, in the one form with \<open>2^52 \<le> m < 2^53\<close>, or \<open>e = -1074\<close>
  and \<open>m < 2^52\<close>, or zero as \<open>Finite neg 0 0\<close>. There is no NaN: no input of this
  program produces one.
\<close>

datatype pyfloat = Finite bool nat int | Infinity bool

definition float_value :: "pyfloat \<Rightarrow> rat option" where
  "float_value f =
     (case f of
        Finite neg m e \<Rightarrow>
          Some ((if neg then - 1 else 1) * of_nat m *
                (if 0 \<le> e then 2 ^ nat e else 1 / 2 ^ nat (- e)))
      | Infinity neg \<Rightarrow> None)"

definition round_half_even_div :: "nat \<Rightarrow> nat \<Rightarrow> nat" where
  "round_half_even_div a b =
     (let f = a div b; r = a mod b
      in if 2 * r < b then f else if b < 2 * r then f + 1 else if even f then f else f + 1)"

fun bit_length :: "nat \<Rightarrow> nat" where
  "bit_length n = (if n = 0 then 0 else Suc (bit_length (n div 2)))"

declare bit_length.simps [simp del]

text \<open>\<open>floor_log2 a b\<close> is the integer part of the binary logarithm of \<open>a / b\<close>.\<close>

definition floor_log2 :: "nat \<Rightarrow> nat \<Rightarrow> int" where
  "floor_log2 a b =
     (let e = int (bit_length a) - int (bit_length b)
      in if (if 0 \<le> e then b * 2 ^ nat e \<le> a else b \<le> a * 2 ^ nat (- e)) then e else e - 1)"

text \<open>The double nearest to \<open>a / b\<close>, ties to even, with overflow to infinity.\<close>

definition round_double :: "bool \<Rightarrow> nat \<Rightarrow> nat \<Rightarrow> pyfloat" where
  "round_double neg a b =
     (if a = 0 then Finite neg 0 0
      else let p = max (floor_log2 a b - 52) (- 1074);
               m = (if 0 \<le> p then round_half_even_div a (b * 2 ^ nat p)
                    else round_half_even_div (a * 2 ^ nat (- p)) b)
           in if m = 0 then Finite neg 0 0
              else if 0 \<le> p \<and> 2 ^ 1024 \<le> m * 2 ^ nat p then Infinity neg
              else if m = 2 ^ 53 then Finite neg (2 ^ 52) (p + 1)
              else Finite neg m p)"

text \<open>
  \<open>float(s)\<close> on the strings that reach it here, which hold only signs, ASCII digits
  and full stops: an optional sign, then digits with an optional full stop among them
  and at least one digit. The value is the nearest double. \<open>None\<close> is ValueError.
\<close>

definition py_float :: "pystr \<Rightarrow> pyfloat option" where
  "py_float s =
     (let neg = (s \<noteq> [] \<and> hd s = cp CHR ''-'');
          body = (if s \<noteq> [] \<and> (hd s = cp CHR ''-'' \<or> hd s = cp CHR ''+'') then tl s else s);
          ip = takeWhile ascii_digit body;
          rest = dropWhile ascii_digit body
      in case rest of
           [] \<Rightarrow> if ip = [] then None else Some (round_double neg (digits_value 0 ip) 1)
         | c # fp \<Rightarrow>
             if c = cp CHR ''.'' \<and> list_all ascii_digit fp \<and> (ip \<noteq> [] \<or> fp \<noteq> [])
             then Some (round_double neg (digits_value 0 (ip @ fp)) (10 ^ length fp))
             else None)"

text \<open>\<open>f"{x:.2f}"\<close>: the value of the double rounded to two decimals, ties to even.\<close>

definition format_2f :: "pyfloat \<Rightarrow> pystr" where
  "format_2f f =
     (case f of
        Infinity neg \<Rightarrow> (if neg then str ''-inf'' else str ''inf'')
      | Finite neg m e \<Rightarrow>
          (let n = (if 0 \<le> e then m * 100 * 2 ^ nat e
                    else round_half_even_div (m * 100) (2 ^ nat (- e)))
           in (if neg then str ''-'' else []) @ dec_digits (n div 100) @ str ''.'' @
              two_digits (n mod 100)))"


section \<open>parse\_german\_amount\_to\_float\<close>

datatype error = ValueError | RuntimeError

definition allowed :: "codepoint \<Rightarrow> bool" where
  "allowed ch \<longleftrightarrow> ch \<in> set (str ''-+0123456789.,'')"

text \<open>
  The value of \<open>clean\<close> when the function reaches its test for the empty string.
  The function's first test, \<open>text is None\<close>, has no counterpart: the argument is a
  string, as the annotation says and as the one caller passes.
\<close>

definition clean_amount :: "pystr \<Rightarrow> pystr" where
  "clean_amount text =
     (let clean = strip text;
          clean = filter allowed clean
      in replace_char (cp CHR '','') (str ''.'') (replace_char (cp CHR ''.'') [] clean))"

definition parse_german_amount_to_float :: "pystr \<Rightarrow> error + pyfloat" where
  "parse_german_amount_to_float text =
     (let clean = clean_amount text
      in if clean = [] \<or> clean = str ''+'' \<or> clean = str ''-'' then Inr (Finite False 0 0)
         else case py_float clean of
                Some x \<Rightarrow> Inr x
              | None \<Rightarrow> Inl ValueError)"


section \<open>convert\_date\_ddmmyyyy\_to\_mmddyyyy\<close>

text \<open>
  \<open>datetime.strptime\<close> turns the format into a regular expression, matches it at the
  start of the text, refuses text that is left over, and builds a date, which checks
  the calendar. The groups are
  \<open>%d = 3[0-1]|[1-2]\d|0[1-9]|[1-9]| [1-9]\<close>, \<open>%m = 1[0-2]|0[1-9]|[1-9]\<close>,
  \<open>%Y = \d\d\d\d\<close>, \<open>%y = \d\d\<close>. Each alternative of a group is tried in order;
  since a full stop follows the group, the first alternative that matches is the only
  one that can.
\<close>

datatype year_directive = Y4 | Y2

definition in_range :: "char \<Rightarrow> char \<Rightarrow> codepoint \<Rightarrow> bool" where
  "in_range lo hi c \<longleftrightarrow> cp lo \<le> c \<and> c \<le> cp hi"

fun match_day :: "pylib \<Rightarrow> pystr \<Rightarrow> (nat \<times> pystr) option" where
  "match_day L (a # b # rest) =
     (if a = cp CHR ''3'' \<and> in_range CHR ''0'' CHR ''1'' b then Some (30 + (b - 48), rest)
      else if in_range CHR ''1'' CHR ''2'' a \<and> py_decimal L b \<noteq> None
        then Some (10 * (a - 48) + the (py_decimal L b), rest)
      else if a = cp CHR ''0'' \<and> in_range CHR ''1'' CHR ''9'' b then Some (b - 48, rest)
      else if in_range CHR ''1'' CHR ''9'' a then Some (a - 48, b # rest)
      else if a = cp CHR '' '' \<and> in_range CHR ''1'' CHR ''9'' b then Some (b - 48, rest)
      else None)"
| "match_day L [a] = (if in_range CHR ''1'' CHR ''9'' a then Some (a - 48, []) else None)"
| "match_day L [] = None"

fun match_month :: "pystr \<Rightarrow> (nat \<times> pystr) option" where
  "match_month (a # b # rest) =
     (if a = cp CHR ''1'' \<and> in_range CHR ''0'' CHR ''2'' b then Some (10 + (b - 48), rest)
      else if a = cp CHR ''0'' \<and> in_range CHR ''1'' CHR ''9'' b then Some (b - 48, rest)
      else if in_range CHR ''1'' CHR ''9'' a then Some (a - 48, b # rest)
      else None)"
| "match_month [a] = (if in_range CHR ''1'' CHR ''9'' a then Some (a - 48, []) else None)"
| "match_month [] = None"

text \<open>\<open>n\<close> decimal digits of any script, read as a number.\<close>

fun match_digits :: "pylib \<Rightarrow> nat \<Rightarrow> nat \<Rightarrow> pystr \<Rightarrow> (nat \<times> pystr) option" where
  "match_digits L n acc [] = (if n = 0 then Some (acc, []) else None)"
| "match_digits L n acc (c # cs) =
     (if n = 0 then Some (acc, c # cs)
      else case py_decimal L c of
             None \<Rightarrow> None
           | Some v \<Rightarrow> match_digits L (n - 1) (10 * acc + v) cs)"

definition match_year :: "pylib \<Rightarrow> year_directive \<Rightarrow> pystr \<Rightarrow> (nat \<times> pystr) option" where
  "match_year L fmt s =
     (case fmt of
        Y4 \<Rightarrow> match_digits L 4 0 s
      | Y2 \<Rightarrow> (case match_digits L 2 0 s of
                None \<Rightarrow> None
              | Some (y, r) \<Rightarrow> Some (if y \<le> 68 then y + 2000 else y + 1900, r)))"

definition is_leap :: "nat \<Rightarrow> bool" where
  "is_leap y \<longleftrightarrow> y mod 4 = 0 \<and> (y mod 100 \<noteq> 0 \<or> y mod 400 = 0)"

definition days_in_month :: "nat \<Rightarrow> nat \<Rightarrow> nat" where
  "days_in_month y m =
     (if m = 2 then (if is_leap y then 29 else 28)
      else if m = 4 \<or> m = 6 \<or> m = 9 \<or> m = 11 then 30 else 31)"

definition valid_date :: "nat \<Rightarrow> nat \<Rightarrow> nat \<Rightarrow> bool" where
  "valid_date y m d \<longleftrightarrow>
     1 \<le> y \<and> y \<le> 9999 \<and> 1 \<le> m \<and> m \<le> 12 \<and> 1 \<le> d \<and> d \<le> days_in_month y m"

text \<open>The result is (year, month, day); \<open>None\<close> is ValueError.\<close>

definition strptime :: "pylib \<Rightarrow> year_directive \<Rightarrow> pystr \<Rightarrow> (nat \<times> nat \<times> nat) option" where
  "strptime L fmt text =
     (case match_day L text of
        None \<Rightarrow> None
      | Some (d, r1) \<Rightarrow>
          if r1 = [] \<or> hd r1 \<noteq> cp CHR ''.'' then None
          else (case match_month (tl r1) of
                  None \<Rightarrow> None
                | Some (m, r2) \<Rightarrow>
                    if r2 = [] \<or> hd r2 \<noteq> cp CHR ''.'' then None
                    else (case match_year L fmt (tl r2) of
                            None \<Rightarrow> None
                          | Some (y, r3) \<Rightarrow>
                              if r3 \<noteq> [] then None
                              else if valid_date y m d then Some (y, m, d)
                              else None)))"

text \<open>\<open>dt.strftime("%m/%d/%Y")\<close>\<close>

definition strftime :: "pylib \<Rightarrow> nat \<times> nat \<times> nat \<Rightarrow> pystr" where
  "strftime L dt =
     (case dt of (y, m, d) \<Rightarrow>
        two_digits m @ str ''/'' @ two_digits d @ str ''/'' @ py_fmt_year L y)"

fun try_formats :: "pylib \<Rightarrow> pystr \<Rightarrow> year_directive list \<Rightarrow> pystr" where
  "try_formats L text [] = text"
| "try_formats L text (fmt # fmts) =
     (case strptime L fmt text of
        Some dt \<Rightarrow> strftime L dt
      | None \<Rightarrow> try_formats L text fmts)"

definition convert_date_ddmmyyyy_to_mmddyyyy :: "pylib \<Rightarrow> pystr \<Rightarrow> pystr" where
  "convert_date_ddmmyyyy_to_mmddyyyy L text = try_formats L (strip text) [Y4, Y2]"


section \<open>iter\_transactions and write\_quicken\_csv\<close>

record transaction =
  tx_date :: pystr
  tx_payee :: pystr
  tx_fi_payee :: pystr
  tx_amount :: pystr
  tx_memo :: pystr

text \<open>The lines of the loop that build \<open>memo_parts\<close> and join them.\<close>

definition build_memo :: "pystr \<Rightarrow> pystr \<Rightarrow> pystr" where
  "build_memo buchungstext_ascii verwendungszweck_ascii =
     (let memo_parts = [];
          memo_parts = (if buchungstext_ascii \<noteq> [] then memo_parts @ [buchungstext_ascii]
                        else memo_parts);
          memo_parts = (if verwendungszweck_ascii \<noteq> [] \<and>
                           verwendungszweck_ascii \<noteq> buchungstext_ascii
                        then memo_parts @ [verwendungszweck_ascii] else memo_parts)
      in join (str '' | '') memo_parts)"

text \<open>The body of the loop for one line; \<open>None\<close> is \<open>continue\<close>.\<close>

definition parse_row :: "pylib \<Rightarrow> pystr \<Rightarrow> transaction option" where
  "parse_row L raw =
     (let line = strip raw
      in if line = [] then None
         else if cp CHR '';'' \<notin> set line then None
         else let cols = split_on (cp CHR '';'') line
              in if length cols < 8 then None
                 else let booking_date = strip (cols ! 0);
                          payee = (if 2 < length cols then strip (cols ! 2) else []);
                          buchungstext = (if 3 < length cols then strip (cols ! 3) else []);
                          verwendungszweck = (if 4 < length cols then strip (cols ! 4) else []);
                          amount_text = (if 7 < length cols then strip (cols ! 7) else [])
                      in if startswith (py_lower L booking_date) (str ''buchung'') then None
                         else case parse_german_amount_to_float amount_text of
                                Inl err \<Rightarrow> None
                              | Inr amount \<Rightarrow>
                                  Some \<lparr>tx_date = convert_date_ddmmyyyy_to_mmddyyyy L booking_date,
                                        tx_payee = normalize_to_ascii L payee,
                                        tx_fi_payee = [],
                                        tx_amount = format_2f amount,
                                        tx_memo = build_memo (normalize_to_ascii L buchungstext)
                                                 (normalize_to_ascii L verwendungszweck)\<rparr>)"

fun parse_rows :: "pylib \<Rightarrow> pystr list \<Rightarrow> transaction list" where
  "parse_rows L [] = []"
| "parse_rows L (raw # rest) =
     (case parse_row L raw of
        None \<Rightarrow> parse_rows L rest
      | Some tx \<Rightarrow> tx # parse_rows L rest)"

definition iter_transactions :: "pylib \<Rightarrow> pystr list \<Rightarrow> error + transaction list" where
  "iter_transactions L lines =
     (let start = find_data_start_index lines
      in if start = - 1 then Inl RuntimeError
         else Inr (parse_rows L (drop (nat start) lines)))"

text \<open>The rows that \<open>write_quicken_csv\<close> hands to the CSV writer, in order.\<close>

definition csv_header :: "pystr list" where
  "csv_header =
     [str ''Date'', str ''Payee'', str ''FI Payee'', str ''Amount'', str ''Debit/Credit'',
      str ''Category'', str ''Account'', str ''Tag'', str ''Memo'', str ''Chknum'']"

definition csv_row :: "pystr \<Rightarrow> transaction \<Rightarrow> pystr list" where
  "csv_row account_name tx =
     [tx_date tx, tx_payee tx, tx_fi_payee tx, tx_amount tx, [], [], account_name, [],
      tx_memo tx, []]"

definition write_quicken_csv :: "pystr \<Rightarrow> transaction list \<Rightarrow> pystr list list" where
  "write_quicken_csv account_name transactions =
     csv_header # map (csv_row account_name) transactions"


section \<open>Assumptions on the runtime, and one instance\<close>

text \<open>
  What the theorems below assume of the runtime, each a fact of Unicode or of the C
  library on every platform: NFKD leaves a string of ASCII characters as it is,
  \<open>lower\<close> maps such a string letter by letter, the ASCII characters that are decimal
  digits are \<open>0\<close> to \<open>9\<close> with their values, and \<open>%Y\<close> prints a year from 1000
  to 9999 as its four digits.
\<close>

definition nfkd_ascii :: "pylib \<Rightarrow> bool" where
  "nfkd_ascii L \<longleftrightarrow> (\<forall>s. list_all is_ascii s \<longrightarrow> py_nfkd L s = s)"

definition lower_ascii :: "pylib \<Rightarrow> bool" where
  "lower_ascii L \<longleftrightarrow> (\<forall>s. list_all is_ascii s \<longrightarrow> py_lower L s = map ascii_lower s)"

definition decimal_ascii :: "pylib \<Rightarrow> bool" where
  "decimal_ascii L \<longleftrightarrow>
     (\<forall>c. is_ascii c \<longrightarrow> py_decimal L c = (if ascii_digit c then Some (c - 48) else None))"

definition year_four_digits :: "pylib \<Rightarrow> bool" where
  "year_four_digits L \<longleftrightarrow> (\<forall>y. 1000 \<le> y \<and> y \<le> 9999 \<longrightarrow> py_fmt_year L y = dec_digits y)"

definition pylib_ok :: "pylib \<Rightarrow> bool" where
  "pylib_ok L \<longleftrightarrow> nfkd_ascii L \<and> lower_ascii L \<and> decimal_ascii L \<and> year_four_digits L"

text \<open>
  A small runtime to evaluate the model with: NFKD splits the accented vowels U+00E1,
  U+00E9 and U+00E8 into letter and accent and maps the no-break space to a space,
  \<open>lower\<close> knows ASCII, the Latin-1 capitals and the Kelvin sign, the digits are the
  ASCII and the Arabic-Indic ones, and \<open>%Y\<close> is not padded.
\<close>

definition sample_decompose :: "codepoint \<Rightarrow> pystr" where
  "sample_decompose c =
     (if c = 225 then [97, 769] else if c = 233 then [101, 769]
      else if c = 232 then [101, 768] else if c = 160 then [32] else [c])"

definition sample_lower :: "codepoint \<Rightarrow> codepoint" where
  "sample_lower c =
     (if 65 \<le> c \<and> c \<le> 90 then c + 32
      else if 192 \<le> c \<and> c \<le> 222 \<and> c \<noteq> 215 then c + 32
      else if c = 8490 then 107 else c)"

definition sample_decimal :: "codepoint \<Rightarrow> nat option" where
  "sample_decimal c =
     (if 48 \<le> c \<and> c \<le> 57 then Some (c - 48)
      else if 1632 \<le> c \<and> c \<le> 1641 then Some (c - 1632) else None)"

definition sample_lib :: pylib where
  "sample_lib =
     \<lparr>py_nfkd = (\<lambda>s. concat (map sample_decompose s)),
      py_lower = map sample_lower,
      py_decimal = sample_decimal,
      py_fmt_year = dec_digits\<rparr>"

text \<open>
  The lines of the end-to-end example: the account line, the header line, the data
  line as it is printed (eight fields, the currency code in the eighth) and a data line
  with all nine columns of the export (the amount in the eighth), whose second, sixth
  and seventh fields, elided in the example, are parameters.
\<close>

definition ex_account_line :: pystr where
  "ex_account_line = str ''Kontoname;Girokonto Future''"

definition ex_header_line :: pystr where
  "ex_header_line = str ''Buchung;Wertstellung;...;Betrag;...''"

definition ex_data_line_printed :: pystr where
  "ex_data_line_printed =
     str ''14.08.2025;...;M'' @ [252] @ str ''ller GmbH;Lastschrift;Miete B'' @ [252] @
     str ''ro;...;-1.770,00;EUR''"

definition ex_data_fields :: "pystr \<Rightarrow> pystr \<Rightarrow> pystr \<Rightarrow> pystr list" where
  "ex_data_fields f1 f5 f6 =
     [str ''14.08.2025'', f1, str ''M'' @ [252] @ str ''ller GmbH'', str ''Lastschrift'',
      str ''Miete B'' @ [252] @ str ''ro'', f5, f6, str ''-1.770,00'', str ''EUR'']"

definition ex_data_line :: "pystr \<Rightarrow> pystr \<Rightarrow> pystr \<Rightarrow> pystr" where
  "ex_data_line f1 f5 f6 = join (str '';'') (ex_data_fields f1 f5 f6)"

definition ex_transaction :: "pystr \<Rightarrow> transaction" where
  "ex_transaction amount_str =
     \<lparr>tx_date = str ''08/14/2025'', tx_payee = str ''Mueller GmbH'', tx_fi_payee = [],
      tx_amount = amount_str, tx_memo = str ''Lastschrift | Miete Buero''\<rparr>"


section \<open>Facts about the string primitives\<close>

lemma startswith_prefix: "startswith s p \<longleftrightarrow> prefix p s"
  by (auto simp: startswith_def prefix_def) (metis append_take_drop_id)

lemma contains_sublist: "contains s p \<longleftrightarrow> sublist p s"
  by (induction s) (auto simp: startswith_prefix sublist_Cons_right)

lemma is_table_header_iff:
  "is_table_header line \<longleftrightarrow>
     prefix (str ''Buchung;'') (strip line) \<and> sublist (str '';Betrag'') (strip line)"
  by (simp add: is_table_header_def Let_def startswith_prefix contains_sublist)

section \<open>The table-start scan\<close>

lemma find_from_none:
  "find_data_start_index_from k lines = - 1 \<longleftrightarrow> (\<forall>l\<in>set lines. \<not> is_table_header l)"
  by (induction lines arbitrary: k) auto

lemma find_from_first:
  "i < length lines \<Longrightarrow> is_table_header (lines ! i) \<Longrightarrow>
   (\<forall>j<i. \<not> is_table_header (lines ! j)) \<Longrightarrow>
   find_data_start_index_from k lines = int k + int i + 1"
proof (induction lines arbitrary: k i)
  case Nil
  then show ?case by simp
next
  case (Cons l ls)
  show ?case
  proof (cases i)
    case 0
    with Cons.prems show ?thesis by simp
  next
    case (Suc n)
    with Cons.prems have "\<not> is_table_header l" by auto
    moreover have "find_data_start_index_from (Suc k) ls = int (Suc k) + int n + 1"
      using Cons.prems Suc by (intro Cons.IH) auto
    ultimately show ?thesis using Suc by simp
  qed
qed

lemma first_header_exists:
  assumes "\<exists>l\<in>set lines. is_table_header l"
  shows "\<exists>i<length lines. is_table_header (lines ! i) \<and> (\<forall>j<i. \<not> is_table_header (lines ! j))"
proof -
  define Q where "Q = (\<lambda>i. i < length lines \<and> is_table_header (lines ! i))"
  from assms have "\<exists>i. Q i" by (auto simp: Q_def in_set_conv_nth)
  then have "Q (LEAST i. Q i)" by (rule LeastI_ex)
  moreover have "\<forall>j<(LEAST i. Q i). \<not> Q j" using not_less_Least by blast
  ultimately show ?thesis unfolding Q_def by (metis order.strict_trans)
qed

lemma ex_lines_headers:
  "is_table_header ex_account_line = False" "is_table_header ex_header_line = True"
  by code_simp+

text \<open>
  C5. If no line, trimmed, starts with \<open>Buchung;\<close> and contains \<open>;Betrag\<close>, then
  \<open>find_data_start_index\<close> returns -1 and \<open>iter_transactions\<close> raises; otherwise
  \<open>find_data_start_index\<close> returns the index after the first such line and
  \<open>iter_transactions\<close> returns its list.
\<close>

theorem find_data_start_index_spec:
  "((\<forall>line\<in>set lines. \<not> (prefix (str ''Buchung;'') (strip line) \<and>
                              sublist (str '';Betrag'') (strip line))) \<longrightarrow>
      find_data_start_index lines = - 1 \<and> iter_transactions L lines = Inl RuntimeError) \<and>
   ((\<exists>line\<in>set lines. prefix (str ''Buchung;'') (strip line) \<and>
                          sublist (str '';Betrag'') (strip line)) \<longrightarrow>
      (\<exists>i<length lines.
          prefix (str ''Buchung;'') (strip (lines ! i)) \<and>
          sublist (str '';Betrag'') (strip (lines ! i)) \<and>
          (\<forall>j<i. \<not> (prefix (str ''Buchung;'') (strip (lines ! j)) \<and>
                      sublist (str '';Betrag'') (strip (lines ! j)))) \<and>
          find_data_start_index lines = int i + 1) \<and>
      (\<exists>txs. iter_transactions L lines = Inr txs))"
proof (intro conjI impI)
  assume none: "\<forall>line\<in>set lines. \<not> (prefix (str ''Buchung;'') (strip line) \<and>
                              sublist (str '';Betrag'') (strip line))"
  then show "find_data_start_index lines = - 1"
    by (simp add: find_data_start_index_def find_from_none is_table_header_iff)
  then show "iter_transactions L lines = Inl RuntimeError"
    by (simp add: iter_transactions_def)
next
  assume some: "\<exists>line\<in>set lines. prefix (str ''Buchung;'') (strip line) \<and>
                          sublist (str '';Betrag'') (strip line)"
  then have "\<exists>l\<in>set lines. is_table_header l" by (simp add: is_table_header_iff)
  then obtain i where i: "i < length lines" "is_table_header (lines ! i)"
    "\<forall>j<i. \<not> is_table_header (lines ! j)"
    using first_header_exists by blast
  then have idx: "find_data_start_index lines = int i + 1"
    using find_from_first [of i lines 0] by (simp add: find_data_start_index_def)
  with i show "\<exists>i<length lines.
          prefix (str ''Buchung;'') (strip (lines ! i)) \<and>
          sublist (str '';Betrag'') (strip (lines ! i)) \<and>
          (\<forall>j<i. \<not> (prefix (str ''Buchung;'') (strip (lines ! j)) \<and>
                      sublist (str '';Betrag'') (strip (lines ! j)))) \<and>
          find_data_start_index lines = int i + 1"
    unfolding is_table_header_iff by blast
  from idx show "\<exists>txs. iter_transactions L lines = Inr txs"
    by (simp add: iter_transactions_def)
qed

theorem find_data_start_index_spec_witness:
  "find_data_start_index [ex_account_line] = - 1 \<and>
   iter_transactions sample_lib [ex_account_line] = Inl RuntimeError \<and>
   find_data_start_index [ex_account_line, ex_header_line, ex_data_line_printed] = 2 \<and>
   (\<exists>txs. iter_transactions sample_lib
             [ex_account_line, ex_header_line, ex_data_line_printed] = Inr txs)"
proof -
  have a: "\<not> (prefix (str ''Buchung;'') (strip ex_account_line) \<and>
              sublist (str '';Betrag'') (strip ex_account_line))"
    and h: "prefix (str ''Buchung;'') (strip ex_header_line) \<and>
            sublist (str '';Betrag'') (strip ex_header_line)"
    using ex_lines_headers by (simp_all add: is_table_header_iff)
  let ?ls = "[ex_account_line, ex_header_line, ex_data_line_printed]"
  from a have "find_data_start_index [ex_account_line] = - 1 \<and>
     iter_transactions sample_lib [ex_account_line] = Inl RuntimeError"
    using find_data_start_index_spec [of "[ex_account_line]" sample_lib] by simp
  moreover
  from h obtain i where i: "i < length ?ls"
      "prefix (str ''Buchung;'') (strip (?ls ! i)) \<and> sublist (str '';Betrag'') (strip (?ls ! i))"
      "\<forall>j<i. \<not> (prefix (str ''Buchung;'') (strip (?ls ! j)) \<and>
                 sublist (str '';Betrag'') (strip (?ls ! j)))"
      "find_data_start_index ?ls = int i + 1"
    and r: "\<exists>txs. iter_transactions sample_lib ?ls = Inr txs"
    using find_data_start_index_spec [of ?ls sample_lib] by auto
  have "i = 1"
  proof -
    have "i \<noteq> 0" using i(2) a by (cases i) auto
    moreover have "\<not> 1 < i" using i(3) h by auto
    ultimately show ?thesis by simp
  qed
  with i(4) r have "find_data_start_index ?ls = 2 \<and>
     (\<exists>txs. iter_transactions sample_lib ?ls = Inr txs)" by simp
  ultimately show ?thesis by simp
qed


lemma split_on_not_Nil [simp]: "split_on sep s \<noteq> []"
  by (induction s) (auto simp: Let_def)

lemma split_on_length: "length (split_on sep s) = Suc (length (filter (\<lambda>c. c = sep) s))"
proof (induction s)
  case Nil
  show ?case by simp
next
  case (Cons c cs)
  have "length (tl (split_on sep cs)) = length (filter (\<lambda>c. c = sep) cs)"
    using Cons.IH by simp
  with Cons.IH show ?case by (simp add: Let_def)
qed

lemma split_on_has_sep: "2 \<le> length (split_on sep s) \<Longrightarrow> sep \<in> set s \<and> s \<noteq> []"
proof -
  assume "2 \<le> length (split_on sep s)"
  then have "filter (\<lambda>c. c = sep) s \<noteq> []" by (auto simp: split_on_length)
  then show ?thesis by (auto simp: filter_empty_conv)
qed

lemma filter_dropWhile_disjoint:
  "(\<And>x. Q x \<Longrightarrow> \<not> P x) \<Longrightarrow> filter P (dropWhile Q xs) = filter P xs"
  by (induction xs) auto

lemma isspace_not_allowed: "isspace c \<Longrightarrow> \<not> allowed c"
  by (auto simp: isspace_def allowed_def str_def cp_def)

lemma filter_allowed_strip: "filter allowed (strip s) = filter allowed s"
proof -
  have "filter allowed (rstrip t) = filter allowed t" for t
  proof -
    have "filter allowed (dropWhile isspace (rev t)) = filter allowed (rev t)"
      by (rule filter_dropWhile_disjoint) (rule isspace_not_allowed)
    then show ?thesis by (simp add: rstrip_def rev_filter [symmetric])
  qed
  moreover have "filter allowed (lstrip s) = filter allowed s"
    unfolding lstrip_def by (rule filter_dropWhile_disjoint) (rule isspace_not_allowed)
  ultimately show ?thesis by (simp add: strip_def)
qed

section \<open>Rows\<close>

lemma parse_row_Some:
  assumes "parse_row L raw = Some tx"
  shows "\<exists>x. parse_german_amount_to_float (strip (split_on (cp CHR '';'') (strip raw) ! 7)) = Inr x \<and>
     8 \<le> length (split_on (cp CHR '';'') (strip raw)) \<and>
     \<not> startswith (py_lower L (strip (split_on (cp CHR '';'') (strip raw) ! 0))) (str ''buchung'') \<and>
     tx = \<lparr>tx_date = convert_date_ddmmyyyy_to_mmddyyyy L
                       (strip (split_on (cp CHR '';'') (strip raw) ! 0)),
           tx_payee = normalize_to_ascii L (strip (split_on (cp CHR '';'') (strip raw) ! 2)),
           tx_fi_payee = [],
           tx_amount = format_2f x,
           tx_memo = build_memo
             (normalize_to_ascii L (strip (split_on (cp CHR '';'') (strip raw) ! 3)))
             (normalize_to_ascii L (strip (split_on (cp CHR '';'') (strip raw) ! 4)))\<rparr>"
  using assms unfolding parse_row_def Let_def
  by (auto split: if_splits sum.splits)

lemma parse_row_eq:
  assumes "8 \<le> length (split_on (cp CHR '';'') (strip raw))"
    and "\<not> startswith (py_lower L (strip (split_on (cp CHR '';'') (strip raw) ! 0))) (str ''buchung'')"
    and "parse_german_amount_to_float (strip (split_on (cp CHR '';'') (strip raw) ! 7)) = Inr x"
  shows "parse_row L raw =
     Some \<lparr>tx_date = convert_date_ddmmyyyy_to_mmddyyyy L
                       (strip (split_on (cp CHR '';'') (strip raw) ! 0)),
           tx_payee = normalize_to_ascii L (strip (split_on (cp CHR '';'') (strip raw) ! 2)),
           tx_fi_payee = [],
           tx_amount = format_2f x,
           tx_memo = build_memo
             (normalize_to_ascii L (strip (split_on (cp CHR '';'') (strip raw) ! 3)))
             (normalize_to_ascii L (strip (split_on (cp CHR '';'') (strip raw) ! 4)))\<rparr>"
proof -
  from assms(1) have "cp CHR '';'' \<in> set (strip raw) \<and> strip raw \<noteq> []"
    by (intro split_on_has_sep) simp
  with assms show ?thesis unfolding parse_row_def Let_def by simp
qed

lemma parse_row_skips:
  assumes "parse_german_amount_to_float (strip (split_on (cp CHR '';'') (strip raw) ! 7)) = Inl e"
  shows "parse_row L raw = None"
  using assms unfolding parse_row_def Let_def by simp

lemma parse_rows_append: "parse_rows L (xs @ ys) = parse_rows L xs @ parse_rows L ys"
  by (induction xs) (auto split: option.splits)

lemma parse_rows_fi_payee: "tx \<in> set (parse_rows L rows) \<Longrightarrow> tx_fi_payee tx = []"
proof (induction rows)
  case Nil
  then show ?case by simp
next
  case (Cons raw rows)
  show ?case
  proof (cases "parse_row L raw")
    case None
    with Cons show ?thesis by simp
  next
    case (Some t)
    then have "tx_fi_payee t = []" using parse_row_Some [OF Some] by auto
    with Cons Some show ?thesis by auto
  qed
qed

lemma iter_transactions_Inr:
  "iter_transactions L lines = Inr txs \<Longrightarrow>
   txs = parse_rows L (drop (nat (find_data_start_index lines)) lines)"
  by (auto simp: iter_transactions_def Let_def split: if_splits)

lemma ex_iter_sample:
  "iter_transactions sample_lib
     [ex_account_line, ex_header_line,
      ex_data_line (str ''14.08.2025'') (str ''1.234,56'') (str ''EUR'')] =
   Inr [ex_transaction (str ''-1770.00'')]"
  by code_simp

text \<open>
  C7. For the records that \<open>iter_transactions\<close> returns, \<open>write_quicken_csv\<close> writes
  the header row of the ten column names and then one row of ten fields per record:
  date, payee, empty, amount, empty, empty, the account name, empty, memo, empty.
\<close>

theorem write_quicken_csv_rows:
  assumes "iter_transactions L lines = Inr txs"
  shows "write_quicken_csv account_name txs =
     [str ''Date'', str ''Payee'', str ''FI Payee'', str ''Amount'', str ''Debit/Credit'',
      str ''Category'', str ''Account'', str ''Tag'', str ''Memo'', str ''Chknum''] #
     map (\<lambda>tx. [tx_date tx, tx_payee tx, [], tx_amount tx, [], [], account_name, [],
                 tx_memo tx, []]) txs"
proof -
  have "\<forall>tx\<in>set txs. tx_fi_payee tx = []"
    using iter_transactions_Inr [OF assms] parse_rows_fi_payee by blast
  then have "map (csv_row account_name) txs =
     map (\<lambda>tx. [tx_date tx, tx_payee tx, [], tx_amount tx, [], [], account_name, [],
                 tx_memo tx, []]) txs"
    by (intro map_cong) (auto simp: csv_row_def)
  then show ?thesis by (simp add: write_quicken_csv_def csv_header_def)
qed

theorem write_quicken_csv_rows_witness:
  "write_quicken_csv (str ''ING Checking'') [ex_transaction (str ''-1770.00'')] =
     [[str ''Date'', str ''Payee'', str ''FI Payee'', str ''Amount'', str ''Debit/Credit'',
       str ''Category'', str ''Account'', str ''Tag'', str ''Memo'', str ''Chknum''],
      [str ''08/14/2025'', str ''Mueller GmbH'', [], str ''-1770.00'', [], [],
       str ''ING Checking'', [], str ''Lastschrift | Miete Buero'', []]]"
  using write_quicken_csv_rows [OF ex_iter_sample, of "str ''ING Checking''"]
  by (simp add: ex_transaction_def)


lemma build_memo_cases:
  "build_memo t p =
     (if p = [] \<or> p = t then t else if t = [] then p else t @ str '' | '' @ p)"
  by (auto simp: build_memo_def Let_def)

text \<open>
  C9, as the claim states it, fails on a row whose transaction-type text is empty and
  whose purpose text is not: the claim's memo is the two texts joined by the
  separator, the code's memo is the purpose text alone.
\<close>

theorem memo_empty_type_counterexample:
  "parse_row sample_lib (str ''14.08.2025;x;P;;Zweck;s;EUR;1,00;EUR'') =
     Some \<lparr>tx_date = str ''08/14/2025'', tx_payee = str ''P'', tx_fi_payee = [],
           tx_amount = str ''1.00'', tx_memo = str ''Zweck''\<rparr> \<and>
   normalize_to_ascii sample_lib [] @ str '' | '' @ normalize_to_ascii sample_lib (str ''Zweck'') =
     str '' | Zweck''"
  by code_simp

text \<open>
  C9, amended. For every row that yields a record, the memo is the normalized
  transaction-type text and the normalized purpose text joined by \<open>" | "\<close>, where the
  purpose text is left out when it is empty or equal to the transaction-type text, and
  the transaction-type text and the separator are left out when that text is empty.
\<close>

theorem memo_of_row:
  assumes "parse_row L raw = Some tx"
    and "cols = split_on (cp CHR '';'') (strip raw)"
    and "t = normalize_to_ascii L (strip (cols ! 3))"
    and "p = normalize_to_ascii L (strip (cols ! 4))"
  shows "tx_memo tx = (if p = [] \<or> p = t then t else if t = [] then p else t @ str '' | '' @ p)"
  using parse_row_Some [OF assms(1)] assms(2-4) by (auto simp: build_memo_cases)

lemma ex_parse_row_memo:
  "parse_row sample_lib (str ''14.08.2025;x;P;Lastschrift;Miete;s;EUR;1,00;EUR'') =
     Some \<lparr>tx_date = str ''08/14/2025'', tx_payee = str ''P'', tx_fi_payee = [],
           tx_amount = str ''1.00'', tx_memo = str ''Lastschrift | Miete''\<rparr>"
  "normalize_to_ascii sample_lib
     (strip (split_on (cp CHR '';'') (strip (str ''14.08.2025;x;P;Lastschrift;Miete;s;EUR;1,00;EUR'')) ! 3))
     = str ''Lastschrift''"
  "normalize_to_ascii sample_lib
     (strip (split_on (cp CHR '';'') (strip (str ''14.08.2025;x;P;Lastschrift;Miete;s;EUR;1,00;EUR'')) ! 4))
     = str ''Miete''"
  by code_simp+

theorem memo_of_row_witness:
  "tx_memo \<lparr>tx_date = str ''08/14/2025'', tx_payee = str ''P'', tx_fi_payee = [],
            tx_amount = str ''1.00'', tx_memo = str ''Lastschrift | Miete''\<rparr> =
     str ''Lastschrift'' @ str '' | '' @ str ''Miete''"
proof -
  have "str ''Miete'' \<noteq> [] \<and> str ''Miete'' \<noteq> str ''Lastschrift'' \<and> str ''Lastschrift'' \<noteq> []"
    by (simp add: str_def)
  then show ?thesis
    using memo_of_row [OF ex_parse_row_memo(1) refl ex_parse_row_memo(2) [symmetric]
        ex_parse_row_memo(3) [symmetric]]
    by simp
qed

text \<open>
  C10. A field that holds none of the characters \<open>-+0123456789.,\<close> parses to 0.0, and
  a row with such an amount field that passes the other checks of the loop is emitted
  with the amount \<open>0.00\<close>.
\<close>

theorem empty_amount_is_zero:
  assumes "filter allowed amount_text = []"
  shows "parse_german_amount_to_float amount_text = Inr (Finite False 0 0) \<and>
     (\<forall>L raw. 8 \<le> length (split_on (cp CHR '';'') (strip raw)) \<and>
        \<not> startswith (py_lower L (strip (split_on (cp CHR '';'') (strip raw) ! 0)))
            (str ''buchung'') \<and>
        split_on (cp CHR '';'') (strip raw) ! 7 = amount_text \<longrightarrow>
        (\<exists>tx. parse_row L raw = Some tx \<and> tx_amount tx = str ''0.00''))"
proof -
  have clean: "clean_amount t = []" if "filter allowed t = []" for t
    using that by (simp add: clean_amount_def Let_def filter_allowed_strip replace_char_def)
  have zero: "parse_german_amount_to_float t = Inr (Finite False 0 0)"
    if "filter allowed t = []" for t
    using clean [OF that] by (simp add: parse_german_amount_to_float_def)
  have fmt: "format_2f (Finite False 0 0) = str ''0.00''"
    by code_simp
  have "filter allowed (strip amount_text) = []"
    using assms by (simp add: filter_allowed_strip)
  then have "parse_german_amount_to_float (strip amount_text) = Inr (Finite False 0 0)"
    by (rule zero)
  then have "\<exists>tx. parse_row L raw = Some tx \<and> tx_amount tx = str ''0.00''"
    if "8 \<le> length (split_on (cp CHR '';'') (strip raw))"
      "\<not> startswith (py_lower L (strip (split_on (cp CHR '';'') (strip raw) ! 0))) (str ''buchung'')"
      "split_on (cp CHR '';'') (strip raw) ! 7 = amount_text" for L raw
    using parse_row_eq [OF that(1) that(2), of "Finite False 0 0"] that(3) fmt by simp
  with zero [OF assms] show ?thesis by blast
qed

lemma ex_currency_row:
  "filter allowed (str ''EUR'') = []"
  "8 \<le> length (split_on (cp CHR '';'') (strip ex_data_line_printed))"
  "\<not> startswith (py_lower sample_lib (strip (split_on (cp CHR '';'') (strip ex_data_line_printed) ! 0)))
       (str ''buchung'')"
  "split_on (cp CHR '';'') (strip ex_data_line_printed) ! 7 = str ''EUR''"
  by code_simp+

theorem empty_amount_is_zero_witness:
  "parse_german_amount_to_float (str ''EUR'') = Inr (Finite False 0 0) \<and>
   (\<exists>tx. parse_row sample_lib ex_data_line_printed = Some tx \<and> tx_amount tx = str ''0.00'')"
  using empty_amount_is_zero [OF ex_currency_row(1)] ex_currency_row(2-4) by blast


section \<open>Amounts\<close>

lemma replace_char_Nil: "replace_char old [] s = filter (\<lambda>c. c \<noteq> old) s"
  by (induction s) (auto simp: replace_char_def)

lemma replace_char_single: "replace_char old [n] s = map (\<lambda>c. if c = old then n else c) s"
  by (induction s) (auto simp: replace_char_def)

lemma clean_amount_eq:
  "clean_amount text =
     map (\<lambda>c. if c = cp CHR '','' then cp CHR ''.'' else c)
       (filter (\<lambda>c. allowed c \<and> c \<noteq> cp CHR ''.'') text)"
proof -
  have "filter (\<lambda>c. c \<noteq> cp CHR ''.'') (filter allowed (strip text)) =
        filter (\<lambda>c. allowed c \<and> c \<noteq> cp CHR ''.'') text"
    by (simp add: filter_allowed_strip conj_commute)
  then show ?thesis
    by (simp add: clean_amount_def Let_def replace_char_Nil str_def replace_char_single)
qed

text \<open>So \<open>float\<close> is only ever applied to signs, ASCII digits and full stops.\<close>

lemma clean_amount_alphabet: "set (clean_amount text) \<subseteq> set (str ''-+0123456789.'')"
  by (auto simp: clean_amount_eq allowed_def str_def cp_def)

text \<open>
  C6, as the claim states it, fails on an amount field such as \<open>EUR\<close>: what is left
  of it is the empty string, which is not a sign character and is not a decimal number
  for \<open>float\<close>, and yet the row is not skipped: it is emitted with the amount 0.00.
\<close>

theorem empty_remainder_counterexample:
  "clean_amount (str ''EUR'') = [] \<and> py_float [] = None \<and>
   parse_row sample_lib (str ''14.08.2025;a;b;c;d;e;f;EUR'') =
     Some \<lparr>tx_date = str ''08/14/2025'', tx_payee = str ''b'', tx_fi_payee = [],
           tx_amount = str ''0.00'', tx_memo = str ''c | d''\<rparr>"
  by code_simp

text \<open>
  C6, amended. The parser keeps the characters \<open>-+0123456789.,\<close> of the field, removes
  every full stop and turns every comma into a full stop. If what is left is empty or
  only a sign character, the amount is zero; otherwise it is what \<open>float\<close> makes of
  it, and if \<open>float\<close> refuses it the row is skipped and the rows before and after it
  are processed as if it were not there.
\<close>

theorem amount_parsing:
  "clean_amount text =
     map (\<lambda>c. if c = cp CHR '','' then cp CHR ''.'' else c)
       (filter (\<lambda>c. allowed c \<and> c \<noteq> cp CHR ''.'') text) \<and>
   (clean_amount text \<in> {[], str ''+'', str ''-''} \<longrightarrow>
      parse_german_amount_to_float text = Inr (Finite False 0 0)) \<and>
   (clean_amount text \<notin> {[], str ''+'', str ''-''} \<longrightarrow>
      parse_german_amount_to_float text =
        (case py_float (clean_amount text) of Some x \<Rightarrow> Inr x | None \<Rightarrow> Inl ValueError)) \<and>
   (\<forall>L raw before after.
      split_on (cp CHR '';'') (strip raw) ! 7 = text \<and>
      parse_german_amount_to_float (strip text) = Inl ValueError \<longrightarrow>
        parse_row L raw = None \<and>
        parse_rows L (before @ raw # after) = parse_rows L before @ parse_rows L after)"
proof (intro conjI allI impI)
  show "clean_amount text =
     map (\<lambda>c. if c = cp CHR '','' then cp CHR ''.'' else c)
       (filter (\<lambda>c. allowed c \<and> c \<noteq> cp CHR ''.'') text)"
    by (rule clean_amount_eq)
next
  assume "clean_amount text \<in> {[], str ''+'', str ''-''}"
  then show "parse_german_amount_to_float text = Inr (Finite False 0 0)"
    by (auto simp: parse_german_amount_to_float_def)
next
  assume "clean_amount text \<notin> {[], str ''+'', str ''-''}"
  then show "parse_german_amount_to_float text =
        (case py_float (clean_amount text) of Some x \<Rightarrow> Inr x | None \<Rightarrow> Inl ValueError)"
    by (simp add: parse_german_amount_to_float_def)
next
  fix L raw before after
  assume a: "split_on (cp CHR '';'') (strip raw) ! 7 = text \<and>
      parse_german_amount_to_float (strip text) = Inl ValueError"
  then show none: "parse_row L raw = None"
    using parse_row_skips [of raw ValueError L] by simp
  then show "parse_rows L (before @ raw # after) = parse_rows L before @ parse_rows L after"
    by (simp add: parse_rows_append)
qed

lemma ex_bad_amount:
  "split_on (cp CHR '';'') (strip (str ''14.08.2025;a;b;c;d;e;f;EUR 1.2-3,4'')) ! 7 =
     str ''EUR 1.2-3,4''"
  "clean_amount (strip (str ''EUR 1.2-3,4'')) = str ''12-3.4''"
  "py_float (str ''12-3.4'') = None"
  "str ''12-3.4'' \<notin> {[], str ''+'', str ''-''}"
  "clean_amount (str '' - '') = str ''-''"
  "parse_rows sample_lib [str ''14.08.2025;a;b;c;d;e;f;1,50''] =
     [\<lparr>tx_date = str ''08/14/2025'', tx_payee = str ''b'', tx_fi_payee = [],
       tx_amount = str ''1.50'', tx_memo = str ''c | d''\<rparr>]"
  by code_simp+

theorem amount_parsing_witness:
  "parse_german_amount_to_float (str '' - '') = Inr (Finite False 0 0) \<and>
   parse_german_amount_to_float (strip (str ''EUR 1.2-3,4'')) = Inl ValueError \<and>
   parse_row sample_lib (str ''14.08.2025;a;b;c;d;e;f;EUR 1.2-3,4'') = None \<and>
   parse_rows sample_lib
     ([] @ str ''14.08.2025;a;b;c;d;e;f;EUR 1.2-3,4'' # [str ''14.08.2025;a;b;c;d;e;f;1,50'']) =
     [\<lparr>tx_date = str ''08/14/2025'', tx_payee = str ''b'', tx_fi_payee = [],
       tx_amount = str ''1.50'', tx_memo = str ''c | d''\<rparr>]"
proof -
  have 1: "parse_german_amount_to_float (str '' - '') = Inr (Finite False 0 0)"
    using amount_parsing [of "str '' - ''"] ex_bad_amount(5) by simp
  have 2: "parse_german_amount_to_float (strip (str ''EUR 1.2-3,4'')) = Inl ValueError"
    using amount_parsing [of "strip (str ''EUR 1.2-3,4'')"] ex_bad_amount(2,3,4) by simp
  have 3: "parse_row sample_lib (str ''14.08.2025;a;b;c;d;e;f;EUR 1.2-3,4'') = None \<and>
     parse_rows sample_lib
       ([] @ str ''14.08.2025;a;b;c;d;e;f;EUR 1.2-3,4'' # [str ''14.08.2025;a;b;c;d;e;f;1,50'']) =
     parse_rows sample_lib [] @ parse_rows sample_lib [str ''14.08.2025;a;b;c;d;e;f;1,50'']"
    using amount_parsing [of "str ''EUR 1.2-3,4''"] ex_bad_amount(1) 2 by blast
  from 1 2 3 show ?thesis by (simp only: ex_bad_amount(6) parse_rows.simps(1) append_Nil simp_thms)
qed

section \<open>The account-name scan\<close>

lemma hd_split_on: "hd (split_on sep s) = takeWhile (\<lambda>c. c \<noteq> sep) s"
  by (induction s) (auto simp: Let_def)

lemma tl_split_on:
  "sep \<in> set s \<Longrightarrow> tl (split_on sep s) = split_on sep (tl (dropWhile (\<lambda>c. c \<noteq> sep) s))"
  by (induction s) (auto simp: Let_def)

lemma split_on_two_fields: "2 \<le> length (split_on sep s) \<longleftrightarrow> sep \<in> set s"
proof
  assume "2 \<le> length (split_on sep s)"
  then show "sep \<in> set s" using split_on_has_sep by blast
next
  assume "sep \<in> set s"
  then have "filter (\<lambda>c. c = sep) s \<noteq> []" by (auto simp: filter_empty_conv)
  then show "2 \<le> length (split_on sep s)"
    by (cases "filter (\<lambda>c. c = sep) s") (auto simp: split_on_length)
qed

lemma split_on_nth0: "split_on sep s ! 0 = takeWhile (\<lambda>c. c \<noteq> sep) s"
  using hd_split_on [of sep s] by (simp add: hd_conv_nth)

lemma split_on_nth1:
  assumes "sep \<in> set s"
  shows "split_on sep s ! 1 = takeWhile (\<lambda>c. c \<noteq> sep) (tl (dropWhile (\<lambda>c. c \<noteq> sep) s))"
proof -
  have "split_on sep s ! 1 = hd (tl (split_on sep s))"
  proof (cases "split_on sep s")
    case Nil
    then show ?thesis by simp
  next
    case (Cons a list)
    then have "list \<noteq> []" using assms split_on_two_fields [of sep s] by auto
    with Cons show ?thesis by (simp add: hd_conv_nth)
  qed
  then show ?thesis using assms by (simp add: tl_split_on hd_split_on)
qed

lemma extract_loop_first:
  assumes "i < length lines"
    and "2 \<le> length (split_on (cp CHR '';'') (lines ! i)) \<and>
         startswith (py_lower L (strip (split_on (cp CHR '';'') (lines ! i) ! 0))) (str ''kontoname'')"
    and "\<forall>j<i. \<not> (2 \<le> length (split_on (cp CHR '';'') (lines ! j)) \<and>
         startswith (py_lower L (strip (split_on (cp CHR '';'') (lines ! j) ! 0))) (str ''kontoname''))"
  shows "extract_account_name_loop L lines d =
     (let name = rstrip_char (cp CHR '','') (strip (split_on (cp CHR '';'') (lines ! i) ! 1))
      in if name \<noteq> [] then name else d)"
  using assms
proof (induction lines arbitrary: i)
  case Nil
  then show ?case by simp
next
  case (Cons l ls)
  show ?case
  proof (cases i)
    case 0
    with Cons.prems show ?thesis by (simp add: Let_def)
  next
    case (Suc n)
    have "\<not> (2 \<le> length (split_on (cp CHR '';'') l) \<and>
         startswith (py_lower L (strip (split_on (cp CHR '';'') l ! 0))) (str ''kontoname''))"
      using Cons.prems(3) Suc by force
    then have "extract_account_name_loop L (l # ls) d = extract_account_name_loop L ls d"
      by (auto simp: Let_def)
    moreover have "extract_account_name_loop L ls d =
     (let name = rstrip_char (cp CHR '','') (strip (split_on (cp CHR '';'') (ls ! n) ! 1))
      in if name \<noteq> [] then name else d)"
      using Cons.prems Suc by (intro Cons.IH) auto
    ultimately show ?thesis using Suc by simp
  qed
qed

lemma extract_loop_none:
  assumes "\<forall>l\<in>set lines. \<not> (2 \<le> length (split_on (cp CHR '';'') l) \<and>
         startswith (py_lower L (strip (split_on (cp CHR '';'') l ! 0))) (str ''kontoname''))"
  shows "extract_account_name_loop L lines d = d"
  using assms by (induction lines) (auto simp: Let_def)

text \<open>
  C8, as the claim states it, fails on a line whose first field only starts with the
  label: the field \<open>Kontoname2\<close> is not equal to the label, and the scan still takes
  the second field of the line.
\<close>

theorem account_label_counterexample:
  "extract_account_name sample_lib [str ''Kontoname2;Foo''] (str ''D'') = str ''Foo'' \<and>
   py_lower sample_lib (strip (split_on (cp CHR '';'') (str ''Kontoname2;Foo'') ! 0)) \<noteq>
     str ''kontoname''"
  by code_simp

text \<open>
  C8, amended. The scan reads the first 20 lines. A line matches when it holds a
  semicolon and its first field, trimmed and in lower case, starts with \<open>kontoname\<close>.
  The result is, for the first matching line, its second field trimmed and then freed
  of all trailing commas, or the default when that is empty; and the default when no
  line among the first 20 matches.
\<close>

theorem extract_account_name_spec:
  assumes M: "\<And>line. M line \<longleftrightarrow>
      cp CHR '';'' \<in> set line \<and>
      prefix (str ''kontoname'')
        (py_lower L (strip (takeWhile (\<lambda>c. c \<noteq> cp CHR '';'') line)))"
    and F: "\<And>line. second_field line =
      takeWhile (\<lambda>c. c \<noteq> cp CHR '';'') (tl (dropWhile (\<lambda>c. c \<noteq> cp CHR '';'') line))"
  shows "(\<forall>i. i < length lines \<and> i < 20 \<and> M (lines ! i) \<and> (\<forall>j<i. \<not> M (lines ! j)) \<longrightarrow>
            extract_account_name L lines d =
              (if rstrip_char (cp CHR '','') (strip (second_field (lines ! i))) = [] then d
               else rstrip_char (cp CHR '','') (strip (second_field (lines ! i))))) \<and>
         ((\<forall>i. i < length lines \<and> i < 20 \<longrightarrow> \<not> M (lines ! i)) \<longrightarrow>
            extract_account_name L lines d = d)"
proof -
  have Mc: "M line \<longleftrightarrow> 2 \<le> length (split_on (cp CHR '';'') line) \<and>
         startswith (py_lower L (strip (split_on (cp CHR '';'') line ! 0))) (str ''kontoname'')"
    for line
    by (simp add: M split_on_two_fields split_on_nth0 startswith_prefix)
  show ?thesis
  proof (intro conjI allI impI)
    fix i
    assume a: "i < length lines \<and> i < 20 \<and> M (lines ! i) \<and> (\<forall>j<i. \<not> M (lines ! j))"
    then have i: "i < length (take 20 lines)" by simp
    have m: "M (take 20 lines ! i)" using a by simp
    have n: "\<forall>j<i. \<not> M (take 20 lines ! j)" using a by simp
    have "cp CHR '';'' \<in> set (lines ! i)" using a M by blast
    then have "split_on (cp CHR '';'') (lines ! i) ! 1 = second_field (lines ! i)"
      using split_on_nth1 [of "cp CHR '';''" "lines ! i"] F by simp
    moreover have "take 20 lines ! i = lines ! i" using a by simp
    ultimately show "extract_account_name L lines d =
              (if rstrip_char (cp CHR '','') (strip (second_field (lines ! i))) = [] then d
               else rstrip_char (cp CHR '','') (strip (second_field (lines ! i))))"
      using extract_loop_first [of i "take 20 lines" L d] i m n
      unfolding extract_account_name_def Mc by (simp add: Let_def)
  next
    assume "\<forall>i. i < length lines \<and> i < 20 \<longrightarrow> \<not> M (lines ! i)"
    then have "\<forall>l\<in>set (take 20 lines). \<not> M l"
      by (auto simp: in_set_conv_nth)
    then show "extract_account_name L lines d = d"
      unfolding extract_account_name_def Mc by (rule extract_loop_none)
  qed
qed


lemma ex_account_facts:
  "(cp CHR '';'' \<in> set ex_account_line \<and>
    prefix (str ''kontoname'')
      (py_lower sample_lib (strip (takeWhile (\<lambda>c. c \<noteq> cp CHR '';'') ex_account_line)))) = True"
  "(cp CHR '';'' \<in> set (str ''x;y'') \<and>
    prefix (str ''kontoname'')
      (py_lower sample_lib (strip (takeWhile (\<lambda>c. c \<noteq> cp CHR '';'') (str ''x;y''))))) = False"
  "(cp CHR '';'' \<in> set ex_header_line \<and>
    prefix (str ''kontoname'')
      (py_lower sample_lib (strip (takeWhile (\<lambda>c. c \<noteq> cp CHR '';'') ex_header_line)))) = False"
  "rstrip_char (cp CHR '','')
     (strip (takeWhile (\<lambda>c. c \<noteq> cp CHR '';'')
        (tl (dropWhile (\<lambda>c. c \<noteq> cp CHR '';'') ex_account_line)))) = str ''Girokonto Future''"
  "str ''Girokonto Future'' \<noteq> []"
  by code_simp+

theorem extract_account_name_spec_witness:
  "extract_account_name sample_lib [str ''x;y'', ex_account_line, ex_header_line] (str ''D'') =
     str ''Girokonto Future'' \<and>
   extract_account_name sample_lib [ex_header_line] (str ''D'') = str ''D''"
proof -
  let ?M = "\<lambda>line. cp CHR '';'' \<in> set line \<and>
      prefix (str ''kontoname'')
        (py_lower sample_lib (strip (takeWhile (\<lambda>c. c \<noteq> cp CHR '';'') line)))"
  let ?F = "\<lambda>line. takeWhile (\<lambda>c. c \<noteq> cp CHR '';'')
      (tl (dropWhile (\<lambda>c. c \<noteq> cp CHR '';'') line))"
  let ?ls = "[str ''x;y'', ex_account_line, ex_header_line]"
  note spec = extract_account_name_spec [of ?M sample_lib ?F, OF refl refl]
  have "(1::nat) < length ?ls \<and> (1::nat) < 20 \<and> ?M (?ls ! 1) \<and> (\<forall>j<1. \<not> ?M (?ls ! j))"
    using ex_account_facts(1,2) by simp
  then have "extract_account_name sample_lib ?ls (str ''D'') =
      (if rstrip_char (cp CHR '','') (strip (?F (?ls ! 1))) = [] then str ''D''
       else rstrip_char (cp CHR '','') (strip (?F (?ls ! 1))))"
    by (rule spec [of ?ls "str ''D''", THEN conjunct1, rule_format])
  then have "extract_account_name sample_lib ?ls (str ''D'') = str ''Girokonto Future''"
    using ex_account_facts(4,5) by simp
  moreover have "\<forall>i. i < length [ex_header_line] \<and> i < 20 \<longrightarrow> \<not> ?M ([ex_header_line] ! i)"
    using ex_account_facts(3) by simp
  then have "extract_account_name sample_lib [ex_header_line] (str ''D'') = str ''D''"
    using spec [of "[ex_header_line]" "str ''D''"] by blast
  ultimately show ?thesis by simp
qed


section \<open>The normalizer\<close>

lemma replace_char_absent: "old \<notin> set s \<Longrightarrow> replace_char old new s = s"
  by (induction s) (auto simp: replace_char_def)

lemma apply_replacements_ascii:
  assumes "list_all is_ascii s"
  shows "apply_replacements s = s"
proof -
  have "c \<notin> set s" if "128 \<le> c" for c
    using assms that by (auto simp: list_all_iff is_ascii_def)
  then show ?thesis
    by (simp add: apply_replacements_def replacements_def replace_char_absent)
qed

lemma split_ws_word:
  "\<forall>c\<in>set w. \<not> isspace c \<Longrightarrow> split_ws cur (w @ s) = split_ws (cur @ w) s"
  by (induction w arbitrary: cur) auto

lemma isspace_space: "isspace 32"
  by (simp add: isspace_def)

lemma str_space: "str '' '' = [32]"
  by (simp add: str_def cp_def)

lemma split_ws_join:
  assumes "\<forall>w\<in>set ws. w \<noteq> [] \<and> (\<forall>c\<in>set w. \<not> isspace c)"
  shows "split_ws [] (join (str '' '') ws) = ws"
  using assms
proof (induction "str '' ''" ws rule: join.induct)
  case 1
  show ?case by simp
next
  case (2 x)
  then have "split_ws [] (x @ []) = split_ws ([] @ x) []"
    by (intro split_ws_word) simp
  with 2 show ?case by simp
next
  case (3 x y ys)
  have "split_ws [] (x @ (32 # join (str '' '') (y # ys))) =
        split_ws ([] @ x) (32 # join (str '' '') (y # ys))"
    using 3(2) by (intro split_ws_word) simp
  also have "\<dots> = x # split_ws [] (join (str '' '') (y # ys))"
    using 3(2) by (simp add: isspace_space)
  also have "\<dots> = x # y # ys"
    using 3 by simp
  finally show ?case by (simp add: str_space)
qed

lemma split_ws_words:
  "\<forall>c\<in>set cur. \<not> isspace c \<and> P c \<Longrightarrow> \<forall>c\<in>set s. P c \<Longrightarrow>
   \<forall>w\<in>set (split_ws cur s). w \<noteq> [] \<and> (\<forall>c\<in>set w. \<not> isspace c \<and> P c)"
proof (induction s arbitrary: cur)
  case Nil
  then show ?case by simp
next
  case (Cons a s)
  show ?case
  proof (cases "isspace a")
    case True
    have "\<forall>w\<in>set (split_ws [] s). w \<noteq> [] \<and> (\<forall>c\<in>set w. \<not> isspace c \<and> P c)"
      using Cons.prems(2) by (intro Cons.IH) simp_all
    moreover have "split_ws cur (a # s) =
        (if cur = [] then split_ws [] s else cur # split_ws [] s)"
      using True by simp
    ultimately show ?thesis using Cons.prems(1) by simp
  next
    case False
    have "\<forall>w\<in>set (split_ws (cur @ [a]) s). w \<noteq> [] \<and> (\<forall>c\<in>set w. \<not> isspace c \<and> P c)"
      using Cons.prems False by (intro Cons.IH) simp_all
    moreover have "split_ws cur (a # s) = split_ws (cur @ [a]) s"
      using False by simp
    ultimately show ?thesis by simp
  qed
qed

lemma join_chars:
  "\<forall>c\<in>set sep. P c \<Longrightarrow> \<forall>w\<in>set ws. \<forall>c\<in>set w. P c \<Longrightarrow> \<forall>c\<in>set (join sep ws). P c"
  by (induction sep ws rule: join.induct) auto

lemma normalize_form:
  "\<exists>ws. normalize_to_ascii L s = join (str '' '') ws \<and>
        (\<forall>w\<in>set ws. w \<noteq> [] \<and> (\<forall>c\<in>set w. \<not> isspace c \<and> is_ascii c))"
proof (cases "s = []")
  case True
  then have "normalize_to_ascii L s = join (str '' '') []"
    by (simp add: normalize_to_ascii_def)
  then show ?thesis by fastforce
next
  case False
  let ?t = "encode_ascii_ignore (py_nfkd L (apply_replacements s))"
  have "\<forall>c\<in>set ?t. is_ascii c" by (simp add: encode_ascii_ignore_def)
  then have "\<forall>w\<in>set (split_ws [] ?t). w \<noteq> [] \<and> (\<forall>c\<in>set w. \<not> isspace c \<and> is_ascii c)"
    by (intro split_ws_words) simp_all
  moreover have "normalize_to_ascii L s = join (str '' '') (split_ws [] ?t)"
    using False by (simp add: normalize_to_ascii_def Let_def)
  ultimately show ?thesis by blast
qed

lemma normalize_ascii:
  assumes "nfkd_ascii L" and "list_all is_ascii (apply_replacements s)"
  shows "normalize_to_ascii L s = join (str '' '') (split_ws [] (apply_replacements s))"
proof (cases "s = []")
  case True
  then show ?thesis by (simp add: normalize_to_ascii_def apply_replacements_ascii)
next
  case False
  have "py_nfkd L (apply_replacements s) = apply_replacements s"
    using assms by (simp add: nfkd_ascii_def)
  moreover have "filter is_ascii (apply_replacements s) = apply_replacements s"
    using assms(2) by (simp add: list_all_iff)
  ultimately show ?thesis
    using False by (simp add: normalize_to_ascii_def Let_def encode_ascii_ignore_def)
qed

lemma normalize_collapsed:
  assumes "nfkd_ascii L"
    and "\<forall>w\<in>set ws. w \<noteq> [] \<and> (\<forall>c\<in>set w. \<not> isspace c \<and> is_ascii c)"
  shows "normalize_to_ascii L (join (str '' '') ws) = join (str '' '') ws"
proof -
  have "\<forall>c\<in>set (join (str '' '') ws). is_ascii c"
    using assms(2) by (intro join_chars) (auto simp: str_space is_ascii_def)
  then have a: "list_all is_ascii (join (str '' '') ws)" by (simp add: list_all_iff)
  then have "normalize_to_ascii L (join (str '' '') ws) =
      join (str '' '') (split_ws [] (join (str '' '') ws))"
    using assms(1) by (simp add: normalize_ascii apply_replacements_ascii)
  then show ?thesis using assms(2) by (simp add: split_ws_join)
qed

lemma ex_replacements:
  "apply_replacements (str ''M'' @ [252] @ str ''ller'') = str ''Mueller''"
  "apply_replacements (str ''Stra'' @ [223] @ str ''e'') = str ''Strasse''"
  "list_all is_ascii (str ''Mueller'')" "list_all is_ascii (str ''Strasse'')"
  "join (str '' '') (split_ws [] (str ''Mueller'')) = str ''Mueller''"
  "join (str '' '') (split_ws [] (str ''Strasse'')) = str ''Strasse''"
  by code_simp+

text \<open>
  C4, as the claim states it, fails on an ASCII string with two spaces in a row: the
  normalizer collapses white space, so the string does not come back unchanged.
\<close>

theorem normalize_ascii_counterexample:
  "list_all is_ascii (str ''a  b'') \<and> normalize_to_ascii sample_lib (str ''a  b'') = str ''a b'' \<and>
   normalize_to_ascii sample_lib (str ''a  b'') \<noteq> str ''a  b''"
  by code_simp

text \<open>
  C4, amended. Where NFKD leaves ASCII strings as they are (as it does), the normalizer
  is idempotent; an ASCII string comes back with each run of white space collapsed to
  one space and none at its ends, so it comes back unchanged when it is made of words
  without white space joined by single spaces; the name written M, U+00FC, l, l, e, r
  becomes \<open>Mueller\<close> and the word written S, t, r, a, U+00DF, e becomes
  \<open>Strasse\<close>; the empty string stays empty.
\<close>

theorem normalize_to_ascii_spec:
  assumes "nfkd_ascii L"
  shows "normalize_to_ascii L (normalize_to_ascii L s) = normalize_to_ascii L s \<and>
     (list_all is_ascii t \<longrightarrow> normalize_to_ascii L t = join (str '' '') (split_ws [] t)) \<and>
     ((\<forall>w\<in>set ws. w \<noteq> [] \<and> (\<forall>c\<in>set w. \<not> isspace c \<and> is_ascii c)) \<longrightarrow>
        normalize_to_ascii L (join (str '' '') ws) = join (str '' '') ws) \<and>
     normalize_to_ascii L (str ''M'' @ [252] @ str ''ller'') = str ''Mueller'' \<and>
     normalize_to_ascii L (str ''Stra'' @ [223] @ str ''e'') = str ''Strasse'' \<and>
     normalize_to_ascii L [] = []"
proof (intro conjI impI)
  obtain ws' where "normalize_to_ascii L s = join (str '' '') ws'"
    "\<forall>w\<in>set ws'. w \<noteq> [] \<and> (\<forall>c\<in>set w. \<not> isspace c \<and> is_ascii c)"
    using normalize_form by blast
  then show "normalize_to_ascii L (normalize_to_ascii L s) = normalize_to_ascii L s"
    using normalize_collapsed [OF assms] by simp
next
  assume "list_all is_ascii t"
  then show "normalize_to_ascii L t = join (str '' '') (split_ws [] t)"
    using normalize_ascii [OF assms, of t] by (simp add: apply_replacements_ascii)
next
  assume "\<forall>w\<in>set ws. w \<noteq> [] \<and> (\<forall>c\<in>set w. \<not> isspace c \<and> is_ascii c)"
  then show "normalize_to_ascii L (join (str '' '') ws) = join (str '' '') ws"
    by (rule normalize_collapsed [OF assms])
next
  show "normalize_to_ascii L (str ''M'' @ [252] @ str ''ller'') = str ''Mueller''"
    using normalize_ascii [OF assms, of "str ''M'' @ [252] @ str ''ller''"]
    by (simp only: ex_replacements)
next
  show "normalize_to_ascii L (str ''Stra'' @ [223] @ str ''e'') = str ''Strasse''"
    using normalize_ascii [OF assms, of "str ''Stra'' @ [223] @ str ''e''"]
    by (simp only: ex_replacements)
next
  show "normalize_to_ascii L [] = []"
    by (simp add: normalize_to_ascii_def)
qed

lemma sample_nfkd_ascii: "nfkd_ascii sample_lib"
proof -
  have "concat (map sample_decompose s) = s" if "list_all is_ascii s" for s
    using that by (induction s) (auto simp: sample_decompose_def is_ascii_def)
  then show ?thesis by (simp add: nfkd_ascii_def sample_lib_def)
qed

lemma ex_normalize_inputs:
  "normalize_to_ascii sample_lib (str ''  caf'' @ [233] @ str ''  au   lait '') = str ''cafe au lait''"
  "list_all is_ascii (str '' a  b '')"
  "join (str '' '') (split_ws [] (str '' a  b '')) = str ''a b''"
  "join (str '' '') [str ''a'', str ''b''] = str ''a b''"
  "\<forall>w\<in>set [str ''a'', str ''b'']. w \<noteq> [] \<and> (\<forall>c\<in>set w. \<not> isspace c \<and> is_ascii c)"
  by code_simp+

theorem normalize_to_ascii_spec_witness:
  "normalize_to_ascii sample_lib (str ''cafe au lait'') = str ''cafe au lait'' \<and>
   normalize_to_ascii sample_lib (str '' a  b '') = str ''a b'' \<and>
   normalize_to_ascii sample_lib (str ''a b'') = str ''a b'' \<and>
   normalize_to_ascii sample_lib (str ''M'' @ [252] @ str ''ller'') = str ''Mueller''"
proof -
  note spec = normalize_to_ascii_spec [OF sample_nfkd_ascii]
  have "normalize_to_ascii sample_lib (str ''cafe au lait'') = str ''cafe au lait''"
    using spec [of "str ''  caf'' @ [233] @ str ''  au   lait ''"]
    by (simp only: ex_normalize_inputs(1))
  moreover have "normalize_to_ascii sample_lib (str '' a  b '') = str ''a b''"
    using spec [of _ "str '' a  b ''"] ex_normalize_inputs(2,3) by simp
  moreover have "normalize_to_ascii sample_lib (str ''a b'') = str ''a b''"
    using spec [of _ _ "[str ''a'', str ''b'']"] ex_normalize_inputs(4,5) by simp
  moreover have "normalize_to_ascii sample_lib (str ''M'' @ [252] @ str ''ller'') = str ''Mueller''"
    using spec by blast
  ultimately show ?thesis by blast
qed


section \<open>Dates\<close>

lemma strip_fixed:
  assumes "s = [] \<or> (\<not> isspace (hd s) \<and> \<not> isspace (last s))"
  shows "strip s = s"
proof (cases s)
  case Nil
  then show ?thesis by (simp add: strip_def lstrip_def rstrip_def)
next
  case (Cons a t)
  with assms have "\<not> isspace a" and l: "\<not> isspace (last s)" by auto
  then have "lstrip s = s" using Cons by (simp add: lstrip_def)
  moreover have "rev s = last s # rev (butlast s)"
    using Cons by (metis append_butlast_last_id list.distinct(1) rev.simps(2) rev_swap)
  then have "dropWhile isspace (rev s) = rev s" using l by (metis dropWhile.simps(2))
  then have "rstrip s = s" by (simp add: rstrip_def)
  ultimately show ?thesis by (simp add: strip_def)
qed

lemma decimal_ascii_digit:
  "decimal_ascii L \<Longrightarrow> b < 10 \<Longrightarrow> py_decimal L (48 + b) = Some b"
  by (simp add: decimal_ascii_def is_ascii_def ascii_digit_def)

lemma match_day_two_digits:
  assumes "decimal_ascii L" and "1 \<le> d" and "d \<le> 31"
  shows "match_day L (two_digits d @ r) = Some (d, r)"
proof -
  define b where "b = d mod 10"
  have b: "b < 10" by (simp add: b_def)
  have d: "d = 10 * (d div 10) + b" by (simp add: b_def)
  note dec = decimal_ascii_digit [OF assms(1) b]
  consider "d div 10 = 0" | "d div 10 = 1" | "d div 10 = 2" | "d div 10 = 3"
    using assms(3) by linarith
  then show ?thesis
  proof cases
    case 1
    then have td: "two_digits d = [48, 48 + b]" by (simp add: two_digits_def b_def)
    from 1 d have deq: "d = b" by simp
    with assms(2) have "1 \<le> b" by simp
    then show ?thesis
      unfolding td using b deq by (simp add: in_range_def cp_def)
  next
    case 2
    then have td: "two_digits d = [49, 48 + b]" by (simp add: two_digits_def b_def)
    from 2 d have deq: "d = 10 + b" by simp
    show ?thesis
      unfolding td using b dec deq by (simp add: in_range_def cp_def)
  next
    case 3
    then have td: "two_digits d = [50, 48 + b]" by (simp add: two_digits_def b_def)
    from 3 d have deq: "d = 20 + b" by simp
    show ?thesis
      unfolding td using b dec deq by (simp add: in_range_def cp_def)
  next
    case 4
    then have td: "two_digits d = [51, 48 + b]" by (simp add: two_digits_def b_def)
    from 4 d have deq: "d = 30 + b" by simp
    with assms(3) have "b \<le> 1" by simp
    then show ?thesis
      unfolding td using deq by (simp add: in_range_def cp_def)
  qed
qed

lemma match_month_two_digits:
  assumes "1 \<le> m" and "m \<le> 12"
  shows "match_month (two_digits m @ r) = Some (m, r)"
proof -
  define b where "b = m mod 10"
  have b: "b < 10" by (simp add: b_def)
  have m: "m = 10 * (m div 10) + b" by (simp add: b_def)
  consider "m div 10 = 0" | "m div 10 = 1"
    using assms(2) by linarith
  then show ?thesis
  proof cases
    case 1
    then have td: "two_digits m = [48, 48 + b]" by (simp add: two_digits_def b_def)
    from 1 m have meq: "m = b" by simp
    with assms(1) have "1 \<le> b" by simp
    then show ?thesis
      unfolding td using b meq by (simp add: in_range_def cp_def)
  next
    case 2
    then have td: "two_digits m = [49, 48 + b]" by (simp add: two_digits_def b_def)
    from 2 m have meq: "m = 10 + b" by simp
    with assms(2) have "b \<le> 2" by simp
    then show ?thesis
      unfolding td using meq by (simp add: in_range_def cp_def)
  qed
qed

lemma dec_digits_four:
  assumes "1000 \<le> y" and "y \<le> 9999"
  shows "dec_digits y = [48 + y div 1000, 48 + y div 100 mod 10, 48 + y div 10 mod 10, 48 + y mod 10]"
proof -
  have 1: "dec_digits (y div 1000) = [48 + y div 1000]"
    using assms by (subst dec_digits.simps) simp
  have 2: "dec_digits (y div 100) = dec_digits (y div 1000) @ [48 + y div 100 mod 10]"
    using assms by (subst dec_digits.simps) (simp add: div_mult2_eq [symmetric])
  have 3: "dec_digits (y div 10) = dec_digits (y div 100) @ [48 + y div 10 mod 10]"
    using assms by (subst dec_digits.simps) (simp add: div_mult2_eq [symmetric])
  have 4: "dec_digits y = dec_digits (y div 10) @ [48 + y mod 10]"
    using assms by (subst dec_digits.simps) simp
  show ?thesis by (simp add: 1 2 3 4)
qed

lemma match_digits_chars:
  assumes "py_decimal L c1 = Some a" and "py_decimal L c2 = Some b"
  shows "match_digits L 2 0 [c1, c2] = Some (10 * a + b, [])"
    and "match_digits L 4 0 [c1, c2] = None"
    and "py_decimal L c3 = Some c \<Longrightarrow> py_decimal L c4 = Some d \<Longrightarrow>
         match_digits L 4 0 ([c1, c2, c3, c4] @ r) = Some (10 * (10 * (10 * a + b) + c) + d, r)"
  using assms by (cases r; simp)+

lemma match_digits_four:
  assumes "decimal_ascii L" and "1000 \<le> y" and "y \<le> 9999"
  shows "match_digits L 4 0 (dec_digits y @ r) = Some (y, r)"
proof -
  have "y div 1000 < 10" "y div 100 mod 10 < 10" "y div 10 mod 10 < 10" "y mod 10 < 10"
    using assms(3) by simp_all
  then have dec: "py_decimal L (48 + y div 1000) = Some (y div 1000)"
    "py_decimal L (48 + y div 100 mod 10) = Some (y div 100 mod 10)"
    "py_decimal L (48 + y div 10 mod 10) = Some (y div 10 mod 10)"
    "py_decimal L (48 + y mod 10) = Some (y mod 10)"
    using decimal_ascii_digit [OF assms(1)] by blast+
  have h: "y div 100 = y div 10 div 10" "y div 1000 = y div 100 div 10"
    by (simp_all add: div_mult2_eq [symmetric])
  have e1: "10 * (y div 10) + y mod 10 = y" by simp
  have e2: "10 * (y div 100) + y div 10 mod 10 = y div 10"
    unfolding h by simp
  have e3: "10 * (y div 1000) + y div 100 mod 10 = y div 100"
    unfolding h(2) by simp
  have "10 * (10 * (10 * (y div 1000) + y div 100 mod 10) + y div 10 mod 10) + y mod 10 = y"
    by (simp only: e1 e2 e3)
  then show ?thesis
    using match_digits_chars(3) [OF dec, of r] by (simp only: dec_digits_four [OF assms(2,3)])
qed

lemma match_digits_two:
  assumes "decimal_ascii L" and "yy < 100"
  shows "match_digits L 2 0 (two_digits yy) = Some (yy, [])"
    and "match_digits L 4 0 (two_digits yy) = None"
proof -
  have "yy div 10 mod 10 < 10" "yy mod 10 < 10" by simp_all
  then have dec: "py_decimal L (48 + yy div 10 mod 10) = Some (yy div 10 mod 10)"
    "py_decimal L (48 + yy mod 10) = Some (yy mod 10)"
    using decimal_ascii_digit [OF assms(1)] by blast+
  have "yy div 10 mod 10 = yy div 10" using assms(2) by simp
  then have "10 * (yy div 10 mod 10) + yy mod 10 = yy" by simp
  then show "match_digits L 2 0 (two_digits yy) = Some (yy, [])"
    using match_digits_chars(1) [OF dec] by (simp only: two_digits_def)
  show "match_digits L 4 0 (two_digits yy) = None"
    using match_digits_chars(2) [OF dec] by (simp only: two_digits_def)
qed

lemma days_in_month_le: "days_in_month y m \<le> 31"
  by (simp add: days_in_month_def)

lemma strptime_Y4_rendered:
  assumes "decimal_ascii L" and "valid_date y m d" and "1000 \<le> y"
  shows "strptime L Y4 (two_digits d @ str ''.'' @ two_digits m @ str ''.'' @ dec_digits y) =
     Some (y, m, d)"
proof -
  from assms(2) have d: "1 \<le> d" "d \<le> 31" and m: "1 \<le> m" "m \<le> 12" and y: "y \<le> 9999"
    using days_in_month_le [of y m] by (auto simp: valid_date_def)
  have "match_digits L 4 0 (dec_digits y @ []) = Some (y, [])"
    by (rule match_digits_four [OF assms(1,3) y])
  then show ?thesis
    using assms(2) match_day_two_digits [OF assms(1) d] match_month_two_digits [OF m]
    by (simp add: strptime_def match_year_def str_def cp_def)
qed

lemma strptime_Y2_rendered:
  assumes "decimal_ascii L" and "yy < 100"
    and "valid_date (if yy \<le> 68 then yy + 2000 else yy + 1900) m d"
  shows "strptime L Y4 (two_digits d @ str ''.'' @ two_digits m @ str ''.'' @ two_digits yy) = None"
    and "strptime L Y2 (two_digits d @ str ''.'' @ two_digits m @ str ''.'' @ two_digits yy) =
     Some (if yy \<le> 68 then yy + 2000 else yy + 1900, m, d)"
proof -
  from assms(3) have d: "1 \<le> d" "d \<le> 31" and m: "1 \<le> m" "m \<le> 12"
    using days_in_month_le [of "if yy \<le> 68 then yy + 2000 else yy + 1900" m]
    by (auto simp: valid_date_def)
  show "strptime L Y4 (two_digits d @ str ''.'' @ two_digits m @ str ''.'' @ two_digits yy) = None"
    using match_day_two_digits [OF assms(1) d] match_month_two_digits [OF m]
      match_digits_two(2) [OF assms(1,2)]
    by (simp add: strptime_def match_year_def str_def cp_def)
  show "strptime L Y2 (two_digits d @ str ''.'' @ two_digits m @ str ''.'' @ two_digits yy) =
     Some (if yy \<le> 68 then yy + 2000 else yy + 1900, m, d)"
    using assms(3) match_day_two_digits [OF assms(1) d] match_month_two_digits [OF m]
      match_digits_two(1) [OF assms(1,2)]
    by (simp add: strptime_def match_year_def str_def cp_def)
qed

lemma strptime_valid: "strptime L fmt text = Some (y, m, d) \<Longrightarrow> valid_date y m d"
  by (auto simp: strptime_def split: option.splits if_splits prod.splits)

lemma digit_not_space: "c < 10 \<Longrightarrow> \<not> isspace (48 + c)"
  by (simp add: isspace_def)

lemma two_digits_not_space: "\<not> isspace (hd (two_digits n))" "\<not> isspace (last (two_digits n))"
  by (simp_all add: two_digits_def digit_not_space)


lemma convert_date_Y4:
  assumes "strptime L Y4 (strip text) = Some (y, m, d)"
  shows "convert_date_ddmmyyyy_to_mmddyyyy L text =
     two_digits m @ str ''/'' @ two_digits d @ str ''/'' @ py_fmt_year L y"
  using assms by (simp add: convert_date_ddmmyyyy_to_mmddyyyy_def strftime_def)

lemma convert_date_Y2:
  assumes "strptime L Y4 (strip text) = None" and "strptime L Y2 (strip text) = Some (y, m, d)"
  shows "convert_date_ddmmyyyy_to_mmddyyyy L text =
     two_digits m @ str ''/'' @ two_digits d @ str ''/'' @ py_fmt_year L y"
  using assms by (simp add: convert_date_ddmmyyyy_to_mmddyyyy_def strftime_def)

lemma convert_date_none:
  assumes "strptime L Y4 (strip text) = None" and "strptime L Y2 (strip text) = None"
  shows "convert_date_ddmmyyyy_to_mmddyyyy L text = strip text"
  using assms by (simp add: convert_date_ddmmyyyy_to_mmddyyyy_def)

lemma strip_rendered_Y4:
  assumes "1000 \<le> y" and "y \<le> 9999"
  shows "strip (two_digits d @ str ''.'' @ two_digits m @ str ''.'' @ dec_digits y) =
     two_digits d @ str ''.'' @ two_digits m @ str ''.'' @ dec_digits y"
proof (rule strip_fixed, rule disjI2, rule conjI)
  show "\<not> isspace (hd (two_digits d @ str ''.'' @ two_digits m @ str ''.'' @ dec_digits y))"
    using two_digits_not_space(1) [of d] by (simp add: two_digits_def)
  have "y mod 10 < 10" by simp
  then show "\<not> isspace (last (two_digits d @ str ''.'' @ two_digits m @ str ''.'' @ dec_digits y))"
    using digit_not_space by (simp add: dec_digits_four [OF assms])
qed

lemma strip_rendered_Y2:
  "strip (two_digits d @ str ''.'' @ two_digits m @ str ''.'' @ two_digits yy) =
     two_digits d @ str ''.'' @ two_digits m @ str ''.'' @ two_digits yy"
proof (rule strip_fixed, rule disjI2, rule conjI)
  show "\<not> isspace (hd (two_digits d @ str ''.'' @ two_digits m @ str ''.'' @ two_digits yy))"
    using two_digits_not_space(1) [of d] by (simp add: two_digits_def)
  show "\<not> isspace (last (two_digits d @ str ''.'' @ two_digits m @ str ''.'' @ two_digits yy))"
    using two_digits_not_space(2) [of yy] by (simp add: two_digits_def)
qed

text \<open>
  C3, as the claim states it, fails on a text with white space around it that is not a
  date: the function returns the trimmed text, not the text it was given.
\<close>

theorem convert_date_counterexample:
  "strptime sample_lib Y4 (strip (str '' x'')) = None \<and>
   strptime sample_lib Y2 (strip (str '' x'')) = None \<and>
   convert_date_ddmmyyyy_to_mmddyyyy sample_lib (str '' x'') = str ''x'' \<and>
   convert_date_ddmmyyyy_to_mmddyyyy sample_lib (str '' x'') \<noteq> str '' x''"
  by code_simp

text \<open>
  C3, amended. The text is trimmed first. A day, a month and a four-digit year from
  1000 on that form a date of the calendar, written \<open>DD.MM.YYYY\<close>, come back as
  \<open>MM/DD/YYYY\<close>; with a two-digit year, written \<open>DD.MM.YY\<close>, they come back as
  \<open>MM/DD/YYYY\<close> with the year 2000 + YY up to 68 and 1900 + YY from 69. In general,
  whatever the first format that parses yields is a date of the calendar and comes
  back as month, day and year in that order (the year as the platform prints it);
  when neither format parses, the trimmed text comes back, which is the text itself
  when it has no white space at its ends. No case raises.
\<close>

theorem convert_date_spec:
  assumes "decimal_ascii L" and "year_four_digits L"
  shows
    "(valid_date y m d \<and> 1000 \<le> y \<longrightarrow>
        convert_date_ddmmyyyy_to_mmddyyyy L
          (two_digits d @ str ''.'' @ two_digits m @ str ''.'' @ dec_digits y) =
        two_digits m @ str ''/'' @ two_digits d @ str ''/'' @ dec_digits y) \<and>
     (yy < 100 \<and> valid_date (if yy \<le> 68 then yy + 2000 else yy + 1900) m d \<longrightarrow>
        convert_date_ddmmyyyy_to_mmddyyyy L
          (two_digits d @ str ''.'' @ two_digits m @ str ''.'' @ two_digits yy) =
        two_digits m @ str ''/'' @ two_digits d @ str ''/'' @
          dec_digits (if yy \<le> 68 then yy + 2000 else yy + 1900)) \<and>
     (\<forall>y' m' d'. strptime L Y4 (strip text) = Some (y', m', d') \<or>
          strptime L Y4 (strip text) = None \<and> strptime L Y2 (strip text) = Some (y', m', d') \<longrightarrow>
        valid_date y' m' d' \<and>
        convert_date_ddmmyyyy_to_mmddyyyy L text =
          two_digits m' @ str ''/'' @ two_digits d' @ str ''/'' @ py_fmt_year L y') \<and>
     (strptime L Y4 (strip text) = None \<and> strptime L Y2 (strip text) = None \<longrightarrow>
        convert_date_ddmmyyyy_to_mmddyyyy L text = strip text) \<and>
     (text = [] \<or> \<not> isspace (hd text) \<and> \<not> isspace (last text) \<longrightarrow> strip text = text)"
proof (intro conjI allI impI)
  assume a: "valid_date y m d \<and> 1000 \<le> y"
  then have y: "1000 \<le> y" "y \<le> 9999" by (simp_all add: valid_date_def)
  have "strptime L Y4 (strip (two_digits d @ str ''.'' @ two_digits m @ str ''.'' @ dec_digits y)) =
      Some (y, m, d)"
    using a strptime_Y4_rendered [OF assms(1)] by (simp add: strip_rendered_Y4 [OF y])
  moreover have "py_fmt_year L y = dec_digits y"
    using assms(2) y by (simp add: year_four_digits_def)
  ultimately show "convert_date_ddmmyyyy_to_mmddyyyy L
          (two_digits d @ str ''.'' @ two_digits m @ str ''.'' @ dec_digits y) =
        two_digits m @ str ''/'' @ two_digits d @ str ''/'' @ dec_digits y"
    using convert_date_Y4 by simp
next
  let ?y = "if yy \<le> 68 then yy + 2000 else yy + 1900"
  assume a: "yy < 100 \<and> valid_date ?y m d"
  have "strptime L Y4 (strip (two_digits d @ str ''.'' @ two_digits m @ str ''.'' @ two_digits yy)) =
      None"
    "strptime L Y2 (strip (two_digits d @ str ''.'' @ two_digits m @ str ''.'' @ two_digits yy)) =
      Some (?y, m, d)"
    using a strptime_Y2_rendered [OF assms(1), of yy m d]
    by (simp_all only: strip_rendered_Y2)
  moreover have "py_fmt_year L ?y = dec_digits ?y"
    using assms(2) a by (simp add: year_four_digits_def)
  ultimately show "convert_date_ddmmyyyy_to_mmddyyyy L
          (two_digits d @ str ''.'' @ two_digits m @ str ''.'' @ two_digits yy) =
        two_digits m @ str ''/'' @ two_digits d @ str ''/'' @ dec_digits ?y"
    using convert_date_Y2 by simp
next
  fix y' m' d'
  assume a: "strptime L Y4 (strip text) = Some (y', m', d') \<or>
          strptime L Y4 (strip text) = None \<and> strptime L Y2 (strip text) = Some (y', m', d')"
  then show "valid_date y' m' d'" using strptime_valid by blast
  from a show "convert_date_ddmmyyyy_to_mmddyyyy L text =
          two_digits m' @ str ''/'' @ two_digits d' @ str ''/'' @ py_fmt_year L y'"
    using convert_date_Y4 convert_date_Y2 by blast
next
  assume "strptime L Y4 (strip text) = None \<and> strptime L Y2 (strip text) = None"
  then show "convert_date_ddmmyyyy_to_mmddyyyy L text = strip text"
    using convert_date_none by blast
next
  assume "text = [] \<or> \<not> isspace (hd text) \<and> \<not> isspace (last text)"
  then show "strip text = text" by (rule strip_fixed)
qed

lemma sample_decimal_ascii: "decimal_ascii sample_lib"
  by (simp add: decimal_ascii_def sample_lib_def sample_decimal_def is_ascii_def ascii_digit_def)

lemma sample_year_four_digits: "year_four_digits sample_lib"
  by (simp add: year_four_digits_def sample_lib_def)

lemma ex_dates:
  "valid_date 2025 8 14 \<and> (1000::nat) \<le> 2025"
  "two_digits 14 @ str ''.'' @ two_digits 8 @ str ''.'' @ dec_digits 2025 = str ''14.08.2025''"
  "two_digits 8 @ str ''/'' @ two_digits 14 @ str ''/'' @ dec_digits 2025 = str ''08/14/2025''"
  "(69::nat) < 100 \<and> valid_date (if (69::nat) \<le> 68 then 69 + 2000 else 69 + 1900) 8 14"
  "two_digits 14 @ str ''.'' @ two_digits 8 @ str ''.'' @ two_digits 69 = str ''14.08.69''"
  "two_digits 8 @ str ''/'' @ two_digits 14 @ str ''/'' @
     dec_digits (if (69::nat) \<le> 68 then 69 + 2000 else 69 + 1900) = str ''08/14/1969''"
  "strptime sample_lib Y4 (strip (str '' 1.8.2025 '')) = Some (2025, 8, 1)"
  "two_digits 8 @ str ''/'' @ two_digits 1 @ str ''/'' @ py_fmt_year sample_lib 2025 =
     str ''08/01/2025''"
  "strptime sample_lib Y4 (strip (str ''31.02.2025'')) = None \<and>
   strptime sample_lib Y2 (strip (str ''31.02.2025'')) = None"
  "\<not> isspace (hd (str ''31.02.2025'')) \<and> \<not> isspace (last (str ''31.02.2025''))"
  by code_simp+

theorem convert_date_spec_witness:
  "convert_date_ddmmyyyy_to_mmddyyyy sample_lib (str ''14.08.2025'') = str ''08/14/2025'' \<and>
   convert_date_ddmmyyyy_to_mmddyyyy sample_lib (str ''14.08.69'') = str ''08/14/1969'' \<and>
   convert_date_ddmmyyyy_to_mmddyyyy sample_lib (str '' 1.8.2025 '') = str ''08/01/2025'' \<and>
   convert_date_ddmmyyyy_to_mmddyyyy sample_lib (str ''31.02.2025'') = str ''31.02.2025''"
proof -
  note spec = convert_date_spec [OF sample_decimal_ascii sample_year_four_digits]
  have "convert_date_ddmmyyyy_to_mmddyyyy sample_lib (str ''14.08.2025'') = str ''08/14/2025''"
    using spec [of 2025 8 14, THEN conjunct1, rule_format, OF ex_dates(1)]
    by (simp only: ex_dates(2,3))
  moreover
  have "convert_date_ddmmyyyy_to_mmddyyyy sample_lib (str ''14.08.69'') = str ''08/14/1969''"
    using spec [of _ 8 14 69, THEN conjunct2, THEN conjunct1, rule_format, OF ex_dates(4)]
    by (simp only: ex_dates(5,6))
  moreover
  have "convert_date_ddmmyyyy_to_mmddyyyy sample_lib (str '' 1.8.2025 '') = str ''08/01/2025''"
    using spec [of _ _ _ _ "str '' 1.8.2025 ''", THEN conjunct2, THEN conjunct2, THEN conjunct1,
        rule_format, OF disjI1, OF ex_dates(7)]
    by (simp only: ex_dates(8))
  moreover
  have "convert_date_ddmmyyyy_to_mmddyyyy sample_lib (str ''31.02.2025'') = strip (str ''31.02.2025'')"
    using spec [of _ _ _ _ "str ''31.02.2025''", THEN conjunct2, THEN conjunct2, THEN conjunct2,
        THEN conjunct1, rule_format, OF ex_dates(9)] .
  moreover
  have "strip (str ''31.02.2025'') = str ''31.02.2025''"
    using spec [of _ _ _ _ "str ''31.02.2025''", THEN conjunct2, THEN conjunct2, THEN conjunct2,
        THEN conjunct2, rule_format, OF disjI2, OF ex_dates(10)] .
  ultimately show ?thesis by simp
qed


section \<open>Amounts in the German format\<close>

lemma digit_kept:
  assumes "ascii_digit c"
  shows "allowed c" and "c \<noteq> cp CHR ''.''" and "c \<noteq> cp CHR '',''"
    and "c \<noteq> cp CHR ''-''" and "c \<noteq> cp CHR ''+''"
proof -
  have "c \<in> {48, 49, 50, 51, 52, 53, 54, 55, 56, 57}"
  proof -
    from assms have "48 \<le> c" "c \<le> 57" by (simp_all add: ascii_digit_def)
    then have "c = 48 \<or> c = 49 \<or> c = 50 \<or> c = 51 \<or> c = 52 \<or> c = 53 \<or> c = 54 \<or> c = 55 \<or>
        c = 56 \<or> c = 57" by arith
    then show ?thesis by blast
  qed
  then show "allowed c" by (auto simp: allowed_def str_def cp_def)
  from assms show "c \<noteq> cp CHR ''.''" "c \<noteq> cp CHR '',''" "c \<noteq> cp CHR ''-''" "c \<noteq> cp CHR ''+''"
    by (auto simp: ascii_digit_def cp_def)
qed

lemma clean_digits:
  assumes "list_all ascii_digit ds"
  shows "filter (\<lambda>c. allowed c \<and> c \<noteq> cp CHR ''.'') ds = ds"
    and "map (\<lambda>c. if c = cp CHR '','' then cp CHR ''.'' else c) ds = ds"
  using assms by (induction ds) (auto simp: digit_kept)

lemma clean_groups:
  assumes "\<forall>g\<in>set gs. list_all ascii_digit g"
  shows "filter (\<lambda>c. allowed c \<and> c \<noteq> cp CHR ''.'') (concat (map (\<lambda>g. cp CHR ''.'' # g) gs)) =
     concat gs"
    and "list_all ascii_digit (concat gs)"
  using assms by (induction gs) (auto simp: clean_digits)

lemma clean_sign:
  assumes "sign = [] \<or> sign = str ''-'' \<or> sign = str ''+''"
  shows "filter (\<lambda>c. allowed c \<and> c \<noteq> cp CHR ''.'') sign = sign"
    and "map (\<lambda>c. if c = cp CHR '','' then cp CHR ''.'' else c) sign = sign"
  using assms by (auto simp: allowed_def str_def cp_def)

lemma py_float_decimal:
  assumes "sign = [] \<or> sign = str ''-'' \<or> sign = str ''+''"
    and "ip \<noteq> []" and "list_all ascii_digit ip" and "list_all ascii_digit fp"
  shows "py_float (sign @ ip @ cp CHR ''.'' # fp) =
     Some (round_double (sign = str ''-'') (digits_value 0 (ip @ fp)) (10 ^ length fp))"
proof -
  obtain a ip' where ip: "ip = a # ip'" using assms(2) by (cases ip) auto
  with assms(3) have a: "ascii_digit a" by simp
  have tw: "takeWhile ascii_digit (ip @ cp CHR ''.'' # fp) = ip"
    "dropWhile ascii_digit (ip @ cp CHR ''.'' # fp) = cp CHR ''.'' # fp"
    using assms(3) by (simp_all add: list_all_iff ascii_digit_def cp_def)
  from assms(1) consider "sign = []" | "sign = str ''-''" | "sign = str ''+''" by blast
  then show ?thesis
  proof cases
    case 1
    have "hd (ip @ cp CHR ''.'' # fp) = a" by (simp add: ip)
    then have "hd (ip @ cp CHR ''.'' # fp) \<noteq> cp CHR ''-''" "hd (ip @ cp CHR ''.'' # fp) \<noteq> cp CHR ''+''"
      using digit_kept [OF a] by simp_all
    then show ?thesis
      using 1 tw assms(2,4) by (simp add: py_float_def Let_def str_def)
  next
    case 2
    then show ?thesis
      using tw assms(2,4) by (simp add: py_float_def Let_def str_def)
  next
    case 3
    have "cp CHR ''+'' \<noteq> cp CHR ''-''" by (simp add: cp_def)
    then show ?thesis
      using 3 tw assms(2,4) by (simp add: py_float_def Let_def str_def)
  qed
qed

lemma digits_value_append:
  "digits_value acc (xs @ ys) = digits_value (digits_value acc xs) ys"
  by (induction xs arbitrary: acc) auto

lemma ex_amounts:
  "parse_german_amount_to_float (str ''-1.770,00'') = Inr (Finite True 7784542324654080 (- 42))"
  "parse_german_amount_to_float (str ''250,00'') = Inr (Finite False 8796093022208000 (- 45))"
  by code_simp+

lemma ex_amount_values:
  "float_value (Finite True 7784542324654080 (- 42)) = Some (- 1770)"
  "float_value (Finite False 8796093022208000 (- 45)) = Some 250"
  by (simp_all add: float_value_def)

section \<open>Accuracy of the conversion to a double\<close>

lemma pow2_powi: "(if 0 \<le> e then 2 ^ nat e else 1 / 2 ^ nat (- e)) = ((2::rat) powi e)"
  by (simp add: power_int_def power_inverse inverse_eq_divide power_one_over)

lemma float_value_Finite:
  "float_value (Finite neg m e) = Some ((if neg then - 1 else 1) * of_nat m * 2 powi e)"
  by (simp only: float_value_def pyfloat.case pow2_powi)

lemma bit_length_bounds: "0 < n \<Longrightarrow> n < 2 ^ bit_length n \<and> 2 ^ bit_length n \<le> 2 * n"
proof (induction n rule: bit_length.induct)
  case (1 n)
  have bl: "bit_length n = Suc (bit_length (n div 2))"
    using "1.prems" by (subst bit_length.simps) simp
  have n: "n = 2 * (n div 2) + n mod 2" by simp
  show ?case
  proof (cases "n div 2 = 0")
    case True
    then have "bit_length (n div 2) = 0" by (simp add: bit_length.simps)
    with bl have b1: "bit_length n = 1" by simp
    from True n "1.prems" have "n = 1" by simp
    then show ?thesis unfolding b1 by simp
  next
    case False
    then have IH: "n div 2 < 2 ^ bit_length (n div 2)"
      "2 ^ bit_length (n div 2) \<le> 2 * (n div 2)"
      using "1.IH" "1.prems" by simp_all
    have "n mod 2 < 2" by simp
    with n have "n < 2 * (n div 2) + 2" by linarith
    also have "\<dots> \<le> 2 * 2 ^ bit_length (n div 2)" using IH(1) by simp
    finally have a: "n < 2 ^ bit_length n" by (simp add: bl)
    have "2 * (n div 2) \<le> n" by simp
    with IH(2) have "2 ^ bit_length (n div 2) \<le> n" by linarith
    then have b: "2 ^ bit_length n \<le> 2 * n" by (simp add: bl)
    from a b show ?thesis ..
  qed
qed

lemma floor_log2_bounds:
  assumes "0 < a" and "0 < b"
  shows "2 powi (floor_log2 a b) \<le> (of_nat a / of_nat b :: rat)"
    and "(of_nat a / of_nat b :: rat) < 2 powi (floor_log2 a b + 1)"
proof -
  define la lb where "la = bit_length a" and "lb = bit_length b"
  define e0 where "e0 = int la - int lb"
  define q :: rat where "q = of_nat a / of_nat b"
  have bpos: "(0::rat) < of_nat b" using assms(2) by simp
  have A: "a < 2 ^ la" "2 ^ la \<le> 2 * a" and B: "b < 2 ^ lb" "2 ^ lb \<le> 2 * b"
    using bit_length_bounds assms by (simp_all add: la_def lb_def)
  have Ar: "(of_nat a :: rat) < 2 ^ la" "(2::rat) ^ la \<le> 2 * of_nat a"
    and Br: "(of_nat b :: rat) < 2 ^ lb" "(2::rat) ^ lb \<le> 2 * of_nat b"
  proof -
    show "(of_nat a :: rat) < 2 ^ la" using A(1) by (metis of_nat_less_iff of_nat_numeral of_nat_power)
    show "(2::rat) ^ la \<le> 2 * of_nat a" using A(2)
      by (metis of_nat_le_iff of_nat_mult of_nat_numeral of_nat_power)
    show "(of_nat b :: rat) < 2 ^ lb" using B(1) by (metis of_nat_less_iff of_nat_numeral of_nat_power)
    show "(2::rat) ^ lb \<le> 2 * of_nat b" using B(2)
      by (metis of_nat_le_iff of_nat_mult of_nat_numeral of_nat_power)
  qed
  have pe0: "(2::rat) powi e0 = 2 ^ la / 2 ^ lb"
    by (simp add: e0_def power_int_diff)
  have up: "q < 2 powi (e0 + 1)"
  proof -
    have "of_nat a * (2::rat) ^ lb < 2 ^ la * (2 * of_nat b)"
      using Ar(1) Br(2) bpos by (intro mult_less_le_imp_less) simp_all
    then have "q < 2 * (2 ^ la / 2 ^ lb)"
      using bpos by (simp add: q_def field_simps)
    then show ?thesis by (simp add: power_int_add_1 pe0 mult.commute)
  qed
  have low: "2 powi (e0 - 1) < q"
  proof -
    have "(2::rat) ^ la * of_nat b < 2 * of_nat a * 2 ^ lb"
      using Ar(2) Br(1) bpos assms(1) by (intro mult_le_less_imp_less) simp_all
    then have "(2 ^ la / 2 ^ lb) / 2 < q"
      using bpos by (simp add: q_def field_simps)
    moreover have "(2::rat) powi (e0 - 1) = 2 powi e0 / 2"
      by (simp add: power_int_diff)
    ultimately show ?thesis by (simp add: pe0)
  qed
  have cond: "(if 0 \<le> e0 then b * 2 ^ nat e0 \<le> a else b \<le> a * 2 ^ nat (- e0)) \<longleftrightarrow> 2 powi e0 \<le> q"
  proof (cases "0 \<le> e0")
    case True
    have "b * 2 ^ nat e0 \<le> a \<longleftrightarrow> (of_nat (b * 2 ^ nat e0) :: rat) \<le> of_nat a"
      by (simp only: of_nat_le_iff)
    also have "\<dots> \<longleftrightarrow> (2::rat) ^ nat e0 \<le> q"
      using bpos by (simp add: q_def field_simps)
    finally show ?thesis using True by (simp add: power_int_def)
  next
    case False
    have "b \<le> a * 2 ^ nat (- e0) \<longleftrightarrow> (of_nat b :: rat) \<le> of_nat (a * 2 ^ nat (- e0))"
      by (simp only: of_nat_le_iff)
    also have "\<dots> \<longleftrightarrow> 1 / (2::rat) ^ nat (- e0) \<le> q"
      using bpos by (simp add: q_def field_simps)
    finally show ?thesis using False by (simp add: pow2_powi [symmetric])
  qed
  have fl: "floor_log2 a b = (if 2 powi e0 \<le> q then e0 else e0 - 1)"
    unfolding floor_log2_def Let_def la_def [symmetric] lb_def [symmetric] e0_def [symmetric]
    using cond by simp
  show "2 powi (floor_log2 a b) \<le> (of_nat a / of_nat b :: rat)"
    using low unfolding fl q_def [symmetric] by simp
  show "(of_nat a / of_nat b :: rat) < 2 powi (floor_log2 a b + 1)"
    using up unfolding fl q_def [symmetric] by (simp add: not_le)
qed

lemma round_half_even_div_close:
  assumes "0 < b"
  shows "\<bar>of_nat (round_half_even_div a b) - (of_nat a / of_nat b :: rat)\<bar> \<le> 1 / 2"
proof -
  define f r where "f = a div b" and "r = a mod b"
  have a: "a = f * b + r" by (simp add: f_def r_def)
  have r: "r < b" using assms by (simp add: r_def)
  have bpos: "(0::rat) < of_nat b" using assms by simp
  have q: "(of_nat a / of_nat b :: rat) = of_nat f + of_nat r / of_nat b"
    using bpos by (simp add: a field_simps)
  have rb: "(of_nat r / of_nat b :: rat) < 1" "0 \<le> (of_nat r / of_nat b :: rat)"
    using r bpos by simp_all
  consider "2 * r < b" | "b < 2 * r" | "2 * r = b" by linarith
  then show ?thesis
  proof cases
    case 1
    then have "round_half_even_div a b = f"
      by (simp add: round_half_even_div_def Let_def f_def r_def)
    moreover have "(of_nat (2 * r) :: rat) < of_nat b" using 1 by (simp only: of_nat_less_iff)
    then have "(of_nat r / of_nat b :: rat) < 1 / 2" using bpos by (simp add: field_simps)
    ultimately show ?thesis using rb by (simp add: q)
  next
    case 2
    then have "round_half_even_div a b = f + 1"
      by (simp add: round_half_even_div_def Let_def f_def r_def)
    moreover have "(of_nat b :: rat) < of_nat (2 * r)" using 2 by (simp only: of_nat_less_iff)
    then have "1 / 2 < (of_nat r / of_nat b :: rat)" using bpos by (simp add: field_simps)
    ultimately show ?thesis using rb by (simp add: q)
  next
    case 3
    then have "round_half_even_div a b = f \<or> round_half_even_div a b = f + 1"
      by (simp add: round_half_even_div_def Let_def f_def r_def)
    moreover have "(of_nat (2 * r) :: rat) = of_nat b" using 3 by (simp only:)
    then have rb2: "(of_nat r / of_nat b :: rat) = 1 / 2" using bpos by (simp add: field_simps)
    have h: "(of_nat a / of_nat b :: rat) = of_nat f + 1 / 2" by (simp only: q rb2)
    ultimately show ?thesis unfolding h by (elim disjE) simp_all
  qed
qed
lemma powi_exponent_less:
  assumes "(2::rat) powi m \<le> x" and "x < 2 powi n"
  shows "m < n"
proof (rule ccontr)
  assume "\<not> m < n"
  then have "(2::rat) powi n \<le> 2 powi m" by (intro power_int_increasing) simp_all
  with assms show False by simp
qed

lemma round_double_accurate:
  assumes "0 < a" and "0 < b"
    and lo: "2 powi (- 1022) \<le> (of_nat a / of_nat b :: rat)"
    and hi: "(of_nat a / of_nat b :: rat) < 2 powi 1023"
  shows "\<exists>m e. round_double neg a b = Finite neg m e \<and>
     \<bar>of_nat m * 2 powi e - (of_nat a / of_nat b :: rat)\<bar> * 2 ^ 53 \<le> of_nat a / of_nat b"
proof -
  define q :: rat where "q = of_nat a / of_nat b"
  define E where "E = floor_log2 a b"
  define p where "p = E - 52"
  define P :: rat where "P = 2 powi p"
  have Eb: "2 powi E \<le> q" "q < 2 powi (E + 1)"
    using floor_log2_bounds [OF assms(1,2)] by (simp_all add: q_def E_def)
  have "- 1022 < E + 1" using lo Eb(2) unfolding q_def [symmetric] by (rule powi_exponent_less)
  then have E_lo: "- 1022 \<le> E" by simp
  have E_hi: "E < 1023" using Eb(1) hi unfolding q_def [symmetric] by (rule powi_exponent_less)
  have pmax: "max (floor_log2 a b - 52) (- 1074) = p" using E_lo by (simp add: p_def E_def)
  have Ppos: "0 < P" by (simp add: P_def)
  have PE: "2 powi E = P * 2 ^ 52" "2 powi (E + 1) = P * 2 ^ 53"
  proof -
    have e: "E = p + 52" "E + 1 = p + 53" by (simp_all add: p_def)
    have "(2::rat) powi (p + 52) = 2 powi p * 2 ^ 52"
      using power_int_add [of "2::rat" p 52] by simp
    then show "2 powi E = P * 2 ^ 52" by (simp only: e P_def)
    have "(2::rat) powi (p + 53) = 2 powi p * 2 ^ 53"
      using power_int_add [of "2::rat" p 53] by simp
    then show "2 powi (E + 1) = P * 2 ^ 53" by (simp add: P_def p_def add.commute)
  qed
  define m0 where "m0 = (if 0 \<le> p then round_half_even_div a (b * 2 ^ nat p)
                    else round_half_even_div (a * 2 ^ nat (- p)) b)"
  define x :: rat where "x = q / P"
  have close: "\<bar>of_nat m0 - x\<bar> \<le> 1 / 2"
  proof (cases "0 \<le> p")
    case True
    then have P: "P = 2 ^ nat p" by (simp add: P_def power_int_def)
    have "(of_nat a / of_nat (b * 2 ^ nat p) :: rat) = x"
      by (simp add: x_def q_def P)
    moreover have "0 < b * 2 ^ nat p" using assms(2) by simp
    ultimately show ?thesis
      using round_half_even_div_close [of "b * 2 ^ nat p" a] True by (simp add: m0_def)
  next
    case False
    then have P: "P = 1 / 2 ^ nat (- p)" using pow2_powi [of p] by (simp add: P_def)
    have "(of_nat (a * 2 ^ nat (- p)) / of_nat b :: rat) = x"
      by (simp add: x_def q_def P)
    then show ?thesis
      using round_half_even_div_close [OF assms(2), of "a * 2 ^ nat (- p)"] False
      by (simp add: m0_def)
  qed
  have xr: "2 ^ 52 \<le> x" "x < 2 ^ 53"
    using Eb Ppos unfolding PE x_def by (simp_all add: field_simps)
  have m_lo: "2 ^ 52 \<le> m0"
  proof (rule ccontr)
    assume "\<not> 2 ^ 52 \<le> m0"
    then have "m0 + 1 \<le> 2 ^ 52" by simp
    then have "(of_nat (m0 + 1) :: rat) \<le> of_nat (2 ^ 52)" by (simp only: of_nat_le_iff)
    then have "(of_nat m0 :: rat) + 1 \<le> 2 ^ 52" by simp
    with close xr(1) show False by linarith
  qed
  have m_hi: "m0 \<le> 2 ^ 53"
  proof (rule ccontr)
    assume "\<not> m0 \<le> 2 ^ 53"
    then have "2 ^ 53 + 1 \<le> m0" by simp
    then have "(of_nat (2 ^ 53 + 1) :: rat) \<le> of_nat m0" by (simp only: of_nat_le_iff)
    then have "(2 ^ 53 :: rat) + 1 \<le> of_nat m0" by simp
    with close xr(2) show False by linarith
  qed
  have no_overflow: "\<not> (0 \<le> p \<and> 2 ^ 1024 \<le> m0 * 2 ^ nat p)"
  proof
    assume o: "0 \<le> p \<and> 2 ^ 1024 \<le> m0 * 2 ^ nat p"
    then have ge: "2 ^ 1024 \<le> m0 * 2 ^ nat p" by (rule conjunct2)
    have le: "53 + nat p < 1024" using E_hi o by (simp add: p_def)
    have "m0 * 2 ^ nat p \<le> 2 ^ 53 * 2 ^ nat p" using m_hi by (rule mult_right_mono) simp
    also have "\<dots> = 2 ^ (53 + nat p)" by (simp only: power_add)
    also have "\<dots> < 2 ^ 1024" using le by (intro power_strict_increasing) simp_all
    finally have lt: "m0 * 2 ^ nat p < 2 ^ 1024" .
    show False by (rule notE [OF leD [OF ge] lt])
  qed
  have rd: "round_double neg a b =
      (if m0 = 2 ^ 53 then Finite neg (2 ^ 52) (p + 1) else Finite neg m0 p)"
  proof -
    have m0: "m0 \<noteq> 0" using m_lo by auto
    have a0: "a \<noteq> 0" using assms(1) by simp
    show ?thesis
      unfolding round_double_def Let_def pmax m0_def [symmetric]
      by (simp only: m0 a0 no_overflow if_False)
  qed
  have err: "\<bar>of_nat m0 * P - q\<bar> * 2 ^ 53 \<le> q"
  proof -
    have "of_nat m0 * P - q = (of_nat m0 - x) * P" using Ppos by (simp add: x_def field_simps)
    then have "\<bar>of_nat m0 * P - q\<bar> = \<bar>of_nat m0 - x\<bar> * P"
      using Ppos by (simp add: abs_mult)
    also have "\<dots> \<le> 1 / 2 * P" using close Ppos by (intro mult_right_mono) simp_all
    finally have "\<bar>of_nat m0 * P - q\<bar> * 2 ^ 53 \<le> 1 / 2 * P * 2 ^ 53" by simp
    also have "\<dots> = P * 2 ^ 52" by simp
    also have "\<dots> \<le> q" using Eb(1) by (simp only: PE)
    finally show ?thesis .
  qed
  show ?thesis
  proof (cases "m0 = 2 ^ 53")
    case True
    have "2 powi (p + 1) = P * 2" by (simp add: P_def power_int_add_1)
    then have "(of_nat (2 ^ 52) :: rat) * 2 powi (p + 1) = of_nat m0 * P"
      using True by simp
    with err rd True show ?thesis unfolding q_def by (metis (full_types))
  next
    case False
    with err rd show ?thesis unfolding q_def P_def by auto
  qed
qed
lemma round_double_decimal:
  assumes "N < 10 ^ 300"
  shows "\<exists>v. float_value (round_double neg N 100) = Some v \<and>
     \<bar>v - (if neg then - 1 else 1) * (of_nat N / 100)\<bar> * 2 ^ 53 \<le> of_nat N / 100"
proof (cases "N = 0")
  case True
  then show ?thesis by (simp add: round_double_def float_value_Finite)
next
  case False
  then have N: "0 < N" by simp
  define q :: rat where "q = of_nat N / of_nat (100::nat)"
  have q: "q = of_nat N / 100" by (simp add: q_def)
  have "(1::rat) \<le> of_nat N" using N by simp
  then have "(1::rat) / 100 \<le> q" by (simp add: q)
  moreover have "(2::rat) powi (- 1022) \<le> 1 / 100"
    by (simp add: power_int_minus_divide)
  ultimately have lo: "2 powi (- 1022) \<le> q" by (rule order_trans [rotated])
  have "(of_nat N :: rat) < of_nat (10 ^ 300)" using assms by (simp only: of_nat_less_iff)
  then have "q < 10 ^ 298" by (simp add: q)
  moreover have "(10::rat) ^ 298 < 2 powi 1023" by simp
  ultimately have hi: "q < 2 powi 1023" by (rule less_trans)
  obtain m e where me: "round_double neg N 100 = Finite neg m e"
    "\<bar>of_nat m * 2 powi e - q\<bar> * 2 ^ 53 \<le> q"
    using round_double_accurate [OF N _ lo [unfolded q_def] hi [unfolded q_def], of neg]
    unfolding q_def by auto
  have "\<bar>(if neg then - 1 else 1) * of_nat m * 2 powi e - (if neg then - 1 else 1) * q\<bar> =
      \<bar>of_nat m * 2 powi e - q\<bar>"
    by (cases neg) (simp_all add: abs_minus_commute)
  with me show ?thesis unfolding q [symmetric] by (simp add: float_value_Finite)
qed


section \<open>The amount pattern\<close>

text \<open>
  C2. An amount string of the pattern \<open>[-+]?\d{1,3}(\.\d{3})*,\d{2}\<close> is a sign, a
  group \<open>g0\<close> of one to three digits, groups \<open>gs\<close> of three digits each behind a
  full stop, a comma and two digits. With \<open>N\<close> the integer that its digits spell, it
  parses to the float of its decimal value \<open>N / 100\<close> with the sign: the double
  nearest to it, which (below the overflow of doubles) differs from it by at most the
  fraction \<open>2^-53\<close> of it. For \<open>-1.770,00\<close> and \<open>250,00\<close> the float is exactly
  -1770 and 250.
\<close>

theorem parse_german_amount_pattern:
  assumes "sign = [] \<or> sign = str ''-'' \<or> sign = str ''+''"
    and "1 \<le> length g0 \<and> length g0 \<le> 3 \<and> list_all ascii_digit g0"
    and "\<forall>g\<in>set gs. length g = 3 \<and> list_all ascii_digit g"
    and "ascii_digit d1 \<and> ascii_digit d2"
    and "N = 100 * digits_value 0 (g0 @ concat gs) + 10 * (d1 - 48) + (d2 - 48)"
  shows "parse_german_amount_to_float
       (sign @ g0 @ concat (map (\<lambda>g. cp CHR ''.'' # g) gs) @ [cp CHR '','', d1, d2]) =
     Inr (round_double (sign = str ''-'') N 100) \<and>
     (N < 10 ^ 300 \<longrightarrow>
        (\<exists>v. float_value (round_double (sign = str ''-'') N 100) = Some v \<and>
           \<bar>v - (if sign = str ''-'' then - 1 else 1) * (of_nat N / 100)\<bar> * 2 ^ 53 \<le>
             of_nat N / 100)) \<and>
     (\<exists>x. parse_german_amount_to_float (str ''-1.770,00'') = Inr x \<and> float_value x = Some (- 1770)) \<and>
     (\<exists>x. parse_german_amount_to_float (str ''250,00'') = Inr x \<and> float_value x = Some 250)"
proof (intro conjI impI)
  let ?s = "sign @ g0 @ concat (map (\<lambda>g. cp CHR ''.'' # g) gs) @ [cp CHR '','', d1, d2]"
  let ?ip = "g0 @ concat gs"
  have gs: "\<forall>g\<in>set gs. list_all ascii_digit g" using assms(3) by blast
  have g0: "list_all ascii_digit g0" "g0 \<noteq> []" using assms(2) by auto
  have ip: "list_all ascii_digit ?ip" "?ip \<noteq> []"
    using g0 clean_groups(2) [OF gs] by simp_all
  have fp: "list_all ascii_digit [d1, d2]" using assms(4) by simp
  have "filter (\<lambda>c. allowed c \<and> c \<noteq> cp CHR ''.'') ?s = sign @ ?ip @ [cp CHR '','', d1, d2]"
    using clean_sign(1) [OF assms(1)] clean_digits(1) [OF g0(1)] clean_groups(1) [OF gs]
      clean_digits(1) [OF fp]
    by (simp add: allowed_def str_def cp_def)
  then have clean: "clean_amount ?s = sign @ ?ip @ cp CHR ''.'' # [d1, d2]"
    using clean_sign(2) [OF assms(1)] clean_digits(2) [OF ip(1)] clean_digits(2) [OF fp]
    by (simp add: clean_amount_eq)
  have "length (clean_amount ?s) \<ge> 4"
    using ip(2) unfolding clean by (cases ?ip) simp_all
  then have "clean_amount ?s \<notin> {[], str ''+'', str ''-''}"
    by (auto simp: str_def)
  then have "parse_german_amount_to_float ?s =
      (case py_float (clean_amount ?s) of Some x \<Rightarrow> Inr x | None \<Rightarrow> Inl ValueError)"
    by (simp add: parse_german_amount_to_float_def)
  also have "\<dots> = Inr (round_double (sign = str ''-'') (digits_value 0 (?ip @ [d1, d2])) (10 ^ 2))"
    unfolding clean using py_float_decimal [OF assms(1) ip(2) ip(1) fp] by simp
  also have "digits_value 0 (?ip @ [d1, d2]) =
      100 * digits_value 0 ?ip + 10 * (d1 - 48) + (d2 - 48)"
    by (simp only: digits_value_append digits_value.simps) simp
  finally show "parse_german_amount_to_float ?s = Inr (round_double (sign = str ''-'') N 100)"
    by (simp add: assms(5))
next
  assume "N < 10 ^ 300"
  then show "\<exists>v. float_value (round_double (sign = str ''-'') N 100) = Some v \<and>
           \<bar>v - (if sign = str ''-'' then - 1 else 1) * (of_nat N / 100)\<bar> * 2 ^ 53 \<le>
             of_nat N / 100"
    by (rule round_double_decimal)
next
  show "\<exists>x. parse_german_amount_to_float (str ''-1.770,00'') = Inr x \<and> float_value x = Some (- 1770)"
    using ex_amounts(1) ex_amount_values(1) by blast
next
  show "\<exists>x. parse_german_amount_to_float (str ''250,00'') = Inr x \<and> float_value x = Some 250"
    using ex_amounts(2) ex_amount_values(2) by blast
qed

lemma ex_pattern:
  "str ''-'' @ str ''1'' @ concat (map (\<lambda>g. cp CHR ''.'' # g) [str ''234'', str ''567'']) @
     [cp CHR '','', cp CHR ''8'', cp CHR ''9''] = str ''-1.234.567,89''"
  "1 \<le> length (str ''1'') \<and> length (str ''1'') \<le> 3 \<and> list_all ascii_digit (str ''1'')"
  "\<forall>g\<in>set [str ''234'', str ''567'']. length g = 3 \<and> list_all ascii_digit g"
  "ascii_digit (cp CHR ''8'') \<and> ascii_digit (cp CHR ''9'')"
  "100 * digits_value 0 (str ''1'' @ concat [str ''234'', str ''567'']) + 10 * (cp CHR ''8'' - 48) +
     (cp CHR ''9'' - 48) = 123456789"
  "round_double True 123456789 100 = Finite True 5302428712241725 (- 32)"
  "format_2f (Finite True 5302428712241725 (- 32)) = str ''-1234567.89''"
  by code_simp+

theorem parse_german_amount_pattern_witness:
  "parse_german_amount_to_float (str ''-1.234.567,89'') =
     Inr (Finite True 5302428712241725 (- 32)) \<and>
   format_2f (Finite True 5302428712241725 (- 32)) = str ''-1234567.89''"
  using parse_german_amount_pattern [of "str ''-''" "str ''1''" "[str ''234'', str ''567'']"
      "cp CHR ''8''" "cp CHR ''9''", OF _ ex_pattern(2,3,4) refl, THEN conjunct1]
  by (simp only: ex_pattern simp_thms)


section \<open>The end-to-end example\<close>

lemma split_on_field:
  "sep \<notin> set f \<Longrightarrow> split_on sep (f @ sep # rest) = f # split_on sep rest"
  by (induction f) (auto simp: Let_def)

lemma split_on_single: "sep \<notin> set f \<Longrightarrow> split_on sep f = [f]"
  by (induction f) (auto simp: Let_def)

lemma split_on_join:
  assumes "fs \<noteq> []" and "\<forall>f\<in>set fs. sep \<notin> set f"
  shows "split_on sep (join [sep] fs) = fs"
  using assms
proof (induction "[sep]" fs rule: join.induct)
  case 1
  then show ?case by simp
next
  case (2 x)
  then show ?case by (simp add: split_on_single)
next
  case (3 x y ys)
  then show ?case by (simp add: split_on_field)
qed

lemma sample_lower_ascii: "lower_ascii sample_lib"
proof -
  have "map sample_lower s = map ascii_lower s" if "list_all is_ascii s" for s
    using that by (induction s) (auto simp: sample_lower_def ascii_lower_def is_ascii_def)
  then show ?thesis by (simp add: lower_ascii_def sample_lib_def)
qed

lemma sample_pylib_ok: "pylib_ok sample_lib"
  by (simp add: pylib_ok_def sample_nfkd_ascii sample_lower_ascii sample_decimal_ascii
      sample_year_four_digits)

lemma ex_fields:
  "cp CHR '';'' \<notin> set (str ''14.08.2025'')"
  "cp CHR '';'' \<notin> set (str ''M'' @ [252] @ str ''ller GmbH'')"
  "cp CHR '';'' \<notin> set (str ''Lastschrift'')"
  "cp CHR '';'' \<notin> set (str ''Miete B'' @ [252] @ str ''ro'')"
  "cp CHR '';'' \<notin> set (str ''-1.770,00'')"
  "cp CHR '';'' \<notin> set (str ''EUR'')"
  "strip (str ''14.08.2025'') = str ''14.08.2025''"
  "list_all is_ascii (str ''14.08.2025'')"
  "\<not> startswith (map ascii_lower (str ''14.08.2025'')) (str ''buchung'')"
  "parse_german_amount_to_float (strip (str ''-1.770,00'')) =
     Inr (Finite True 7784542324654080 (- 42))"
  "format_2f (Finite True 7784542324654080 (- 42)) = str ''-1770.00''"
  by code_simp+

lemma ex_texts:
  "list_all is_ascii (apply_replacements (strip (str ''M'' @ [252] @ str ''ller GmbH'')))"
  "join (str '' '') (split_ws [] (apply_replacements (strip (str ''M'' @ [252] @ str ''ller GmbH'')))) =
     str ''Mueller GmbH''"
  "list_all is_ascii (apply_replacements (strip (str ''Lastschrift'')))"
  "join (str '' '') (split_ws [] (apply_replacements (strip (str ''Lastschrift'')))) =
     str ''Lastschrift''"
  "list_all is_ascii (apply_replacements (strip (str ''Miete B'' @ [252] @ str ''ro'')))"
  "join (str '' '') (split_ws [] (apply_replacements (strip (str ''Miete B'' @ [252] @ str ''ro'')))) =
     str ''Miete Buero''"
  "build_memo (str ''Lastschrift'') (str ''Miete Buero'') = str ''Lastschrift | Miete Buero''"
  by code_simp+

lemma ex_data_line_split:
  assumes "cp CHR '';'' \<notin> set f1 \<union> set f5 \<union> set f6"
  shows "split_on (cp CHR '';'') (strip (ex_data_line f1 f5 f6)) = ex_data_fields f1 f5 f6"
proof -
  have "ex_data_line f1 f5 f6 \<noteq> []" "hd (ex_data_line f1 f5 f6) = 49"
    "last (ex_data_line f1 f5 f6) = 82"
    by (simp_all add: ex_data_line_def ex_data_fields_def str_def cp_def)
  then have "strip (ex_data_line f1 f5 f6) = ex_data_line f1 f5 f6"
    by (intro strip_fixed) (simp add: isspace_def)
  moreover have "str '';'' = [cp CHR '';'']" by (simp add: str_def)
  moreover have "\<forall>f\<in>set (ex_data_fields f1 f5 f6). cp CHR '';'' \<notin> set f"
    using assms ex_fields(1-6) by (simp add: ex_data_fields_def)
  moreover have "ex_data_fields f1 f5 f6 \<noteq> []" by (simp add: ex_data_fields_def)
  ultimately show ?thesis by (simp add: ex_data_line_def split_on_join)
qed

lemma convert_date_rendered:
  assumes "decimal_ascii L" and "year_four_digits L" and "valid_date y m d" and "1000 \<le> y"
  shows "convert_date_ddmmyyyy_to_mmddyyyy L
          (two_digits d @ str ''.'' @ two_digits m @ str ''.'' @ dec_digits y) =
        two_digits m @ str ''/'' @ two_digits d @ str ''/'' @ dec_digits y"
proof -
  from assms(3,4) have y: "1000 \<le> y" "y \<le> 9999" by (simp_all add: valid_date_def)
  have "strptime L Y4 (strip (two_digits d @ str ''.'' @ two_digits m @ str ''.'' @ dec_digits y)) =
      Some (y, m, d)"
    using assms(3,4) strptime_Y4_rendered [OF assms(1)] by (simp add: strip_rendered_Y4 [OF y])
  moreover have "py_fmt_year L y = dec_digits y"
    using assms(2) y by (simp add: year_four_digits_def)
  ultimately show ?thesis using convert_date_Y4 by simp
qed

lemma ex_parse_row:
  assumes "pylib_ok L" and "cp CHR '';'' \<notin> set f1 \<union> set f5 \<union> set f6"
  shows "parse_row L (ex_data_line f1 f5 f6) = Some (ex_transaction (str ''-1770.00''))"
proof -
  from assms(1) have L: "nfkd_ascii L" "lower_ascii L" "decimal_ascii L" "year_four_digits L"
    by (simp_all add: pylib_ok_def)
  note cols = ex_data_line_split [OF assms(2)]
  have len: "8 \<le> length (split_on (cp CHR '';'') (strip (ex_data_line f1 f5 f6)))"
    by (simp add: cols ex_data_fields_def)
  have nth: "split_on (cp CHR '';'') (strip (ex_data_line f1 f5 f6)) ! 0 = str ''14.08.2025''"
    "split_on (cp CHR '';'') (strip (ex_data_line f1 f5 f6)) ! 2 = str ''M'' @ [252] @ str ''ller GmbH''"
    "split_on (cp CHR '';'') (strip (ex_data_line f1 f5 f6)) ! 3 = str ''Lastschrift''"
    "split_on (cp CHR '';'') (strip (ex_data_line f1 f5 f6)) ! 4 = str ''Miete B'' @ [252] @ str ''ro''"
    "split_on (cp CHR '';'') (strip (ex_data_line f1 f5 f6)) ! 7 = str ''-1.770,00''"
    by (simp_all add: cols ex_data_fields_def)
  have "py_lower L (str ''14.08.2025'') = map ascii_lower (str ''14.08.2025'')"
    using L(2) ex_fields(8) by (simp add: lower_ascii_def)
  then have hdr: "\<not> startswith (py_lower L (strip (split_on (cp CHR '';'')
      (strip (ex_data_line f1 f5 f6)) ! 0))) (str ''buchung'')"
    using ex_fields(9) by (simp add: nth ex_fields(7))
  have amt: "parse_german_amount_to_float (strip (split_on (cp CHR '';'')
      (strip (ex_data_line f1 f5 f6)) ! 7)) = Inr (Finite True 7784542324654080 (- 42))"
    by (simp add: nth ex_fields(10))
  have "valid_date 2025 8 14" by (simp add: valid_date_def days_in_month_def)
  then have "convert_date_ddmmyyyy_to_mmddyyyy L
      (two_digits 14 @ str ''.'' @ two_digits 8 @ str ''.'' @ dec_digits 2025) =
      two_digits 8 @ str ''/'' @ two_digits 14 @ str ''/'' @ dec_digits 2025"
    by (intro convert_date_rendered [OF L(3,4)]) simp_all
  then have dt: "convert_date_ddmmyyyy_to_mmddyyyy L (strip (str ''14.08.2025'')) = str ''08/14/2025''"
    by (simp only: ex_dates(2,3) ex_fields(7))
  have "normalize_to_ascii L (strip (str ''M'' @ [252] @ str ''ller GmbH'')) = str ''Mueller GmbH''"
    "normalize_to_ascii L (strip (str ''Lastschrift'')) = str ''Lastschrift''"
    "normalize_to_ascii L (strip (str ''Miete B'' @ [252] @ str ''ro'')) = str ''Miete Buero''"
    using normalize_ascii [OF L(1) ex_texts(1)] normalize_ascii [OF L(1) ex_texts(3)]
      normalize_ascii [OF L(1) ex_texts(5)]
    by (simp_all only: ex_texts(2,4,6))
  then show ?thesis
    using parse_row_eq [OF len hdr amt]
    by (simp only: nth dt ex_fields(11) ex_texts(7) ex_transaction_def)
qed

text \<open>
  C1, as the claim states it, fails: the data line as it is printed has eight
  fields, so the column that the code reads the amount from, the eighth, holds \<open>EUR\<close>
  and the record's amount is 0.00, not -1770.00.
\<close>

theorem end_to_end_printed_counterexample:
  "iter_transactions sample_lib [ex_account_line, ex_header_line, ex_data_line_printed] =
     Inr [ex_transaction (str ''0.00'')] \<and>
   tx_amount (ex_transaction (str ''0.00'')) \<noteq> str ''-1770.00''"
  by code_simp

text \<open>
  C1, amended. When the data line holds all nine columns of the export, so that
  \<open>-1.770,00\<close> is its eighth field (the second elision of the example standing for the
  two fields balance and currency), \<open>iter_transactions\<close> yields exactly one record
  with date 08/14/2025, payee Mueller GmbH, amount -1770.00 and memo
  \<open>Lastschrift | Miete Buero\<close>, and \<open>write_quicken_csv\<close> puts the account name it is
  given into the seventh column of that row. The elided fields may hold anything but
  a semicolon.
\<close>

theorem end_to_end_example:
  assumes "pylib_ok L" and "cp CHR '';'' \<notin> set f1 \<union> set f5 \<union> set f6"
  shows "iter_transactions L [ex_account_line, ex_header_line, ex_data_line f1 f5 f6] =
       Inr [\<lparr>tx_date = str ''08/14/2025'', tx_payee = str ''Mueller GmbH'', tx_fi_payee = [],
             tx_amount = str ''-1770.00'', tx_memo = str ''Lastschrift | Miete Buero''\<rparr>] \<and>
     write_quicken_csv default_account
       [\<lparr>tx_date = str ''08/14/2025'', tx_payee = str ''Mueller GmbH'', tx_fi_payee = [],
         tx_amount = str ''-1770.00'', tx_memo = str ''Lastschrift | Miete Buero''\<rparr>] =
       [csv_header,
        [str ''08/14/2025'', str ''Mueller GmbH'', [], str ''-1770.00'', [], [], default_account,
         [], str ''Lastschrift | Miete Buero'', []]]"
proof
  have "find_data_start_index [ex_account_line, ex_header_line, ex_data_line f1 f5 f6] = 2"
    by (simp add: find_data_start_index_def ex_lines_headers)
  then show "iter_transactions L [ex_account_line, ex_header_line, ex_data_line f1 f5 f6] =
       Inr [\<lparr>tx_date = str ''08/14/2025'', tx_payee = str ''Mueller GmbH'', tx_fi_payee = [],
             tx_amount = str ''-1770.00'', tx_memo = str ''Lastschrift | Miete Buero''\<rparr>]"
    using ex_parse_row [OF assms] by (simp add: iter_transactions_def ex_transaction_def)
next
  show "write_quicken_csv default_account
       [\<lparr>tx_date = str ''08/14/2025'', tx_payee = str ''Mueller GmbH'', tx_fi_payee = [],
         tx_amount = str ''-1770.00'', tx_memo = str ''Lastschrift | Miete Buero''\<rparr>] =
       [csv_header,
        [str ''08/14/2025'', str ''Mueller GmbH'', [], str ''-1770.00'', [], [], default_account,
         [], str ''Lastschrift | Miete Buero'', []]]"
    by (simp add: write_quicken_csv_def csv_row_def)
qed

lemma ex_full_line:
  "cp CHR '';'' \<notin> set (str ''14.08.2025'') \<union> set (str ''1.234,56'') \<union> set (str ''EUR'')"
  "ex_data_line (str ''14.08.2025'') (str ''1.234,56'') (str ''EUR'') =
     str ''14.08.2025;14.08.2025;M'' @ [252] @ str ''ller GmbH;Lastschrift;Miete B'' @ [252] @
     str ''ro;1.234,56;EUR;-1.770,00;EUR''"
  by code_simp+

theorem end_to_end_example_witness:
  "iter_transactions sample_lib
     [str ''Kontoname;Girokonto Future'', str ''Buchung;Wertstellung;...;Betrag;...'',
      str ''14.08.2025;14.08.2025;M'' @ [252] @ str ''ller GmbH;Lastschrift;Miete B'' @ [252] @
      str ''ro;1.234,56;EUR;-1.770,00;EUR''] =
     Inr [\<lparr>tx_date = str ''08/14/2025'', tx_payee = str ''Mueller GmbH'', tx_fi_payee = [],
           tx_amount = str ''-1770.00'', tx_memo = str ''Lastschrift | Miete Buero''\<rparr>] \<and>
   write_quicken_csv (str ''ING Checking'')
     [\<lparr>tx_date = str ''08/14/2025'', tx_payee = str ''Mueller GmbH'', tx_fi_payee = [],
       tx_amount = str ''-1770.00'', tx_memo = str ''Lastschrift | Miete Buero''\<rparr>] =
     [csv_header,
      [str ''08/14/2025'', str ''Mueller GmbH'', [], str ''-1770.00'', [], [], str ''ING Checking'',
       [], str ''Lastschrift | Miete Buero'', []]]"
  using end_to_end_example [OF sample_pylib_ok ex_full_line(1), of "str ''ING Checking''"]
  by (simp only: ex_full_line(2) ex_account_line_def ex_header_line_def)

end
